theory Spec2Isabelle
  imports Complex_Main "HOL-Library.AList"
begin

section \<open>Structured output models\<close>

text \<open>
  \<^verbatim>\<open>class SearchQuery(BaseModel)\<close> and \<^verbatim>\<open>class Feedback(BaseModel)\<close> of
  \<^verbatim>\<open>app/agent.py\<close>. The field \<^verbatim>\<open>grade: Literal["pass", "fail"]\<close> is a two-valued
  datatype; \<^verbatim>\<open>follow_up_queries: list[SearchQuery] | None\<close> is an optional list.
\<close>

record SearchQuery =
  search_query :: string

datatype Literal_grade = Pass | Fail

record Feedback =
  grade :: Literal_grade
  comment :: string
  follow_up_queries :: "SearchQuery list option"

text \<open>
  The session state keeps an evaluation as a dictionary. The dictionary has a fixed
  set of possible keys, so it is a record with one optional field per key:
  \<open>None\<close> is a key that is absent. The value under \<^verbatim>\<open>follow_up_queries\<close> may itself
  be Python's \<^verbatim>\<open>None\<close>, hence the nested option.
\<close>

record evaluation_dict =
  ev_grade :: "string option"
  ev_comment :: "string option"
  ev_follow_up_queries :: "string list option option"

definition grade_str :: "Literal_grade \<Rightarrow> string" where
  "grade_str g = (case g of Pass \<Rightarrow> ''pass'' | Fail \<Rightarrow> ''fail'')"

text \<open>The dictionary form of a \<open>Feedback\<close> value: every key is present.\<close>

definition model_dump :: "Feedback \<Rightarrow> evaluation_dict" where
  "model_dump fb =
     \<lparr>ev_grade = Some (grade_str (grade fb)),
      ev_comment = Some (comment fb),
      ev_follow_up_queries = Some (map_option (map search_query) (follow_up_queries fb))\<rparr>"

text \<open>Python's truth value of a dictionary: true unless it has no key.\<close>

definition evaluation_truthy :: "evaluation_dict \<Rightarrow> bool" where
  "evaluation_truthy d =
     (\<not> (ev_grade d = None \<and> ev_comment d = None \<and> ev_follow_up_queries d = None))"

section \<open>Loop control\<close>

text \<open>
  An \<^verbatim>\<open>Event\<close> as far as loop control reads it: its author and the
  \<^verbatim>\<open>escalate\<close> flag of its actions (\<^verbatim>\<open>Event(author=self.name)\<close> leaves the flag unset).
\<close>

record Event =
  author :: string
  escalate :: bool

text \<open>
  \<^verbatim>\<open>EscalationChecker._run_async_impl\<close>: \<open>research_evaluation\<close> is
  \<^verbatim>\<open>ctx.session.state.get("research_evaluation")\<close>, \<open>None\<close> when the key is absent.
  Both branches yield exactly one event.
\<close>

definition EscalationChecker_run_async_impl ::
  "string \<Rightarrow> evaluation_dict option \<Rightarrow> Event" where
  "EscalationChecker_run_async_impl name research_evaluation =
     (case research_evaluation of
        None \<Rightarrow> \<lparr>author = name, escalate = False\<rparr>
      | Some evaluation_result \<Rightarrow>
          if evaluation_truthy evaluation_result \<and> ev_grade evaluation_result = Some ''pass''
          then \<lparr>author = name, escalate = True\<rparr>
          else \<lparr>author = name, escalate = False\<rparr>)"

text \<open>
  The sub-agents that can stand in the refinement loop. \<open>research_evaluator\<close> and
  \<open>enhanced_search_executor\<close> are language-model agents: what they generate is
  outside the program, so the evaluation an evaluator run produces is an input of the
  model. The evaluator stores it under its \<^verbatim>\<open>output_key="research_evaluation"\<close>; neither
  of the two has a tool or an action that sets \<^verbatim>\<open>escalate\<close>.
\<close>

datatype sub_agent = research_evaluator | escalation_checker | enhanced_search_executor

definition agent_name :: "sub_agent \<Rightarrow> string" where
  "agent_name a =
     (case a of
        research_evaluator \<Rightarrow> ''research_evaluator''
      | escalation_checker \<Rightarrow> ''escalation_checker''
      | enhanced_search_executor \<Rightarrow> ''enhanced_search_executor'')"

text \<open>
  One run of a sub-agent on the state key \<^verbatim>\<open>research_evaluation\<close>: the new value of
  the key and the event the run yields. \<open>llm_output\<close> is the evaluation the model
  generates in this iteration.
\<close>

definition run_sub_agent ::
  "evaluation_dict \<Rightarrow> sub_agent \<Rightarrow> evaluation_dict option \<Rightarrow> evaluation_dict option \<times> Event" where
  "run_sub_agent llm_output a research_evaluation =
     (case a of
        research_evaluator \<Rightarrow>
          (Some llm_output, \<lparr>author = agent_name a, escalate = False\<rparr>)
      | escalation_checker \<Rightarrow>
          (research_evaluation,
           EscalationChecker_run_async_impl (agent_name a) research_evaluation)
      | enhanced_search_executor \<Rightarrow>
          (research_evaluation, \<lparr>author = agent_name a, escalate = False\<rparr>))"

text \<open>
  Modelled from the spec: \<^verbatim>\<open>LoopAgent\<close> is a class of the \<^verbatim>\<open>google.adk\<close> library
  and is not among the sources. Following the spec (4.4 and the design notes), the
  loop driver runs its sub-agents in order, reads the stop signal from the
  \<^verbatim>\<open>escalate\<close> flag of the events they yield, halts at once when a sub-agent has
  escalated (the rest of the iteration is not run), and otherwise counts the iteration
  and halts when the count reaches \<^verbatim>\<open>max_iterations\<close>.

  \<open>run_sub_agents\<close> is one pass over the sub-agent list: the state, the events
  yielded, and whether a sub-agent escalated.
\<close>

fun run_sub_agents ::
  "evaluation_dict \<Rightarrow> sub_agent list \<Rightarrow> evaluation_dict option
     \<Rightarrow> evaluation_dict option \<times> Event list \<times> bool" where
  "run_sub_agents llm_output [] st = (st, [], False)"
| "run_sub_agents llm_output (a # as) st =
     (case run_sub_agent llm_output a st of
        (st', ev) \<Rightarrow>
          if escalate ev then (st', [ev], True)
          else (case run_sub_agents llm_output as st' of
                  (st'', evs, should_exit) \<Rightarrow> (st'', ev # evs, should_exit)))"

datatype loop_state = Running | Escalated | Exhausted

record loop_result =
  final_state :: loop_state
  final_evaluation :: "evaluation_dict option"
  events :: "Event list"
  iteration :: nat

text \<open>
  The loop itself, with the iteration counter \<open>times_looped\<close> of the driver. The
  evaluation generated in iteration \<open>i\<close> (counted from 0) is \<open>llm i\<close>.
\<close>

function LoopAgent_run ::
  "nat \<Rightarrow> sub_agent list \<Rightarrow> (nat \<Rightarrow> evaluation_dict) \<Rightarrow> nat
     \<Rightarrow> evaluation_dict option \<Rightarrow> Event list \<Rightarrow> loop_result" where
  "LoopAgent_run max_iterations sub_agents llm times_looped st evs =
     (if times_looped < max_iterations then
        (case run_sub_agents (llm times_looped) sub_agents st of
           (st', evs', should_exit) \<Rightarrow>
             if should_exit
             then \<lparr>final_state = Escalated, final_evaluation = st',
                   events = evs @ evs', iteration = times_looped\<rparr>
             else LoopAgent_run max_iterations sub_agents llm (Suc times_looped) st' (evs @ evs'))
      else \<lparr>final_state = Exhausted, final_evaluation = st,
             events = evs, iteration = times_looped\<rparr>)"
  by pat_completeness auto
termination
  by (relation "measure (\<lambda>(m, _, _, t, _, _). m - t)") auto

text \<open>
  The loop as \<^verbatim>\<open>research_pipeline\<close> builds it:
  \<^verbatim>\<open>LoopAgent(name="iterative_refinement_loop", max_iterations=2,
      sub_agents=[research_evaluator, enhanced_search_executor])\<close>.
\<close>

definition loop_sub_agents :: "sub_agent list" where
  "loop_sub_agents = [research_evaluator, enhanced_search_executor]"

definition iterative_refinement_loop ::
  "(nat \<Rightarrow> evaluation_dict) \<Rightarrow> evaluation_dict option \<Rightarrow> loop_result" where
  "iterative_refinement_loop llm st = LoopAgent_run 2 loop_sub_agents llm 0 st []"

text \<open>Counting the steps of a run by the authors of its events.\<close>

definition evaluation_steps :: "loop_result \<Rightarrow> nat" where
  "evaluation_steps r = length (filter (\<lambda>e. author e = ''research_evaluator'') (events r))"

definition follow_up_search_steps :: "loop_result \<Rightarrow> nat" where
  "follow_up_search_steps r =
     length (filter (\<lambda>e. author e = ''enhanced_search_executor'') (events r))"

text \<open>
  What one pass over \<open>loop_sub_agents\<close> yields, and two streams of evaluations used
  below: one that fails in iteration 0 and passes afterwards, one that always fails.
\<close>

definition loop_pass :: "Event list" where
  "loop_pass = [\<lparr>author = ''research_evaluator'', escalate = False\<rparr>,
                \<lparr>author = ''enhanced_search_executor'', escalate = False\<rparr>]"

definition fail_then_pass :: "nat \<Rightarrow> evaluation_dict" where
  "fail_then_pass i =
     (if i = 0
      then model_dump \<lparr>grade = Fail, comment = ''gaps'',
                       follow_up_queries = Some [\<lparr>search_query = ''q''\<rparr>]\<rparr>
      else model_dump \<lparr>grade = Pass, comment = ''ok'', follow_up_queries = None\<rparr>)"

definition always_fail :: "nat \<Rightarrow> evaluation_dict" where
  "always_fail i =
     model_dump \<lparr>grade = Fail, comment = ''gaps'',
                 follow_up_queries = Some [\<lparr>search_query = ''q''\<rparr>]\<rparr>"

section \<open>Source registry\<close>

text \<open>
  A value of type \<^verbatim>\<open>Optional[str]\<close>: \<^verbatim>\<open>None\<close> or a string. The fields \<^verbatim>\<open>uri\<close>,
  \<^verbatim>\<open>title\<close> and \<^verbatim>\<open>domain\<close> of a web chunk and the field \<^verbatim>\<open>text\<close> of a segment
  have this type in \<^verbatim>\<open>google.genai.types\<close>. \<open>format_value\<close> is the text an f-string
  puts for such a value: the string itself, and \<^verbatim>\<open>None\<close> for \<^verbatim>\<open>None\<close>.
\<close>

datatype optional_str = PyNone | PyStr string

fun format_value :: "optional_str \<Rightarrow> string" where
  "format_value PyNone = ''None''"
| "format_value (PyStr s) = s"

text \<open>
  The grounding metadata of a session event, as
  \<^verbatim>\<open>collect_research_sources_callback\<close> reads it. A field the callback tests before
  use (\<^verbatim>\<open>grounding_metadata\<close>, \<^verbatim>\<open>grounding_chunks\<close>, \<^verbatim>\<open>web\<close>,
  \<^verbatim>\<open>grounding_supports\<close>, \<^verbatim>\<open>confidence_scores\<close>, \<^verbatim>\<open>grounding_chunk_indices\<close>,
  \<^verbatim>\<open>segment\<close>) is an option; a string field it reads without a test is an
  \<open>optional_str\<close>, stored as it is. Confidence scores are carried unchanged, never
  computed with, so a score is a \<open>real\<close>.
\<close>

record Web =
  uri :: optional_str
  title :: optional_str
  domain :: optional_str

record GroundingChunk =
  web :: "Web option"

record Segment =
  segment_text :: optional_str

record GroundingSupport =
  segment :: "Segment option"
  confidence_scores :: "real list option"
  grounding_chunk_indices :: "int list option"

record GroundingMetadata =
  grounding_chunks :: "GroundingChunk list option"
  grounding_supports :: "GroundingSupport list option"

record session_event =
  grounding_metadata :: "GroundingMetadata option"

text \<open>
  A claim \<^verbatim>\<open>{"text_segment": ..., "confidence": ...}\<close> and a source dictionary. The
  callback writes all five keys of a source; the citation callback reads sources with
  \<^verbatim>\<open>.get\<close> and defaults, so a key may be absent there: each key is an optional field,
  \<open>None\<close> for an absent key. The value under \<^verbatim>\<open>title\<close>, \<^verbatim>\<open>url\<close> and \<^verbatim>\<open>domain\<close>
  is what the web chunk held, so \<open>Some PyNone\<close> is a key that is present with the
  value \<^verbatim>\<open>None\<close>.
\<close>

record supported_claim =
  text_segment :: optional_str
  confidence :: real

record source_info =
  src_short_id :: "string option"
  src_title :: "optional_str option"
  src_url :: "optional_str option"
  src_domain :: "optional_str option"
  supported_claims :: "supported_claim list option"

text \<open>
  Python dictionaries keep insertion order: a dictionary is an association list with
  distinct keys in insertion order. \<open>map_of d k\<close> is the lookup, \<open>AList.update k v d\<close>
  is \<^verbatim>\<open>d[k] = v\<close> (in place for a key that is present, at the end for a new one) and
  \<open>length d\<close> is \<^verbatim>\<open>len(d)\<close>. The keys of \<^verbatim>\<open>url_to_short_id\<close> are the values of
  \<^verbatim>\<open>chunk.web.uri\<close>, \<^verbatim>\<open>None\<close> included.
\<close>

type_synonym url_map = "(optional_str \<times> string) list"
type_synonym source_map = "(string \<times> source_info) list"
type_synonym chunk_map = "(int \<times> string) list"

datatype error = KeyError

text \<open>Python's \<^verbatim>\<open>str\<close> of a natural number: decimal digits, most significant first.\<close>

definition digit_char :: "nat \<Rightarrow> char" where
  "digit_char d =
     (if d = 0 then CHR ''0'' else if d = 1 then CHR ''1'' else if d = 2 then CHR ''2''
      else if d = 3 then CHR ''3'' else if d = 4 then CHR ''4'' else if d = 5 then CHR ''5''
      else if d = 6 then CHR ''6'' else if d = 7 then CHR ''7'' else if d = 8 then CHR ''8''
      else CHR ''9'')"

function str_nat :: "nat \<Rightarrow> string" where
  "str_nat n = (if n < 10 then [digit_char n] else str_nat (n div 10) @ [digit_char (n mod 10)])"
  by pat_completeness auto
termination
  by (relation "measure id") auto

text \<open>\<^verbatim>\<open>f"src-{id_counter}"\<close>\<close>

definition mint_short_id :: "nat \<Rightarrow> string" where
  "mint_short_id id_counter = ''src-'' @ str_nat id_counter"

text \<open>
  The loop over \<^verbatim>\<open>enumerate(event.grounding_metadata.grounding_chunks)\<close>. The loop
  state is \<open>(url_to_short_id, sources, id_counter, chunks_info)\<close>. The lookup
  \<^verbatim>\<open>url_to_short_id[url]\<close> that ends the body reads the entry just written when the
  URL was new and the existing entry otherwise, so the test \<^verbatim>\<open>url not in url_to_short_id\<close>
  and that lookup are one case distinction here.
\<close>

fun chunks_loop ::
  "nat \<Rightarrow> GroundingChunk list \<Rightarrow> url_map \<times> source_map \<times> nat \<times> chunk_map
     \<Rightarrow> url_map \<times> source_map \<times> nat \<times> chunk_map" where
  "chunks_loop idx [] acc = acc"
| "chunks_loop idx (chunk # rest) (url_to_short_id, sources, id_counter, chunks_info) =
     (case web chunk of
        None \<Rightarrow> chunks_loop (Suc idx) rest (url_to_short_id, sources, id_counter, chunks_info)
      | Some w \<Rightarrow>
          let url = uri w;
              title = (if title w \<noteq> domain w then title w else domain w)
          in (case map_of url_to_short_id url of
                None \<Rightarrow>
                  let short_id = mint_short_id id_counter
                  in chunks_loop (Suc idx) rest
                       (AList.update url short_id url_to_short_id,
                        AList.update short_id
                          \<lparr>src_short_id = Some short_id, src_title = Some title,
                           src_url = Some url, src_domain = Some (domain w),
                           supported_claims = Some []\<rparr> sources,
                        id_counter + 1,
                        AList.update (int idx) short_id chunks_info)
              | Some short_id \<Rightarrow>
                  chunks_loop (Suc idx) rest
                    (url_to_short_id, sources, id_counter,
                     AList.update (int idx) short_id chunks_info)))"

text \<open>
  \<^verbatim>\<open>sources[short_id]["supported_claims"].append(claim)\<close>: both subscripts raise
  \<^verbatim>\<open>KeyError\<close> on a missing key.
\<close>

definition append_claim :: "source_map \<Rightarrow> string \<Rightarrow> supported_claim \<Rightarrow> error + source_map" where
  "append_claim sources short_id claim =
     (case map_of sources short_id of
        None \<Rightarrow> Inl KeyError
      | Some info \<Rightarrow>
          (case supported_claims info of
             None \<Rightarrow> Inl KeyError
           | Some claims \<Rightarrow>
               Inr (AList.update short_id (info\<lparr>supported_claims := Some (claims @ [claim])\<rparr>)
                      sources)))"

text \<open>
  The claim built for position \<open>i\<close> of a support:
  \<^verbatim>\<open>confidence_scores[i] if i < len(confidence_scores) else 0.5\<close> with
  \<^verbatim>\<open>confidence_scores = support.confidence_scores or []\<close>, and
  \<^verbatim>\<open>support.segment.text if support.segment else ""\<close>.
\<close>

definition claim_of :: "GroundingSupport \<Rightarrow> nat \<Rightarrow> supported_claim" where
  "claim_of support i =
     (let scores = (case confidence_scores support of None \<Rightarrow> [] | Some cs \<Rightarrow> cs)
      in \<lparr>text_segment =
            (case segment support of None \<Rightarrow> PyStr [] | Some g \<Rightarrow> segment_text g),
          confidence = (if i < length scores then scores ! i else 0.5)\<rparr>)"

text \<open>The loop over \<^verbatim>\<open>enumerate(chunk_indices)\<close> of one support.\<close>

fun indices_loop ::
  "GroundingSupport \<Rightarrow> chunk_map \<Rightarrow> nat \<Rightarrow> int list \<Rightarrow> source_map \<Rightarrow> error + source_map" where
  "indices_loop support chunks_info i [] sources = Inr sources"
| "indices_loop support chunks_info i (chunk_idx # rest) sources =
     (case map_of chunks_info chunk_idx of
        None \<Rightarrow> indices_loop support chunks_info (Suc i) rest sources
      | Some short_id \<Rightarrow>
          (case append_claim sources short_id (claim_of support i) of
             Inl e \<Rightarrow> Inl e
           | Inr sources' \<Rightarrow> indices_loop support chunks_info (Suc i) rest sources'))"

text \<open>\<^verbatim>\<open>chunk_indices = support.grounding_chunk_indices or []\<close>\<close>

definition chunk_indices_of :: "GroundingSupport \<Rightarrow> int list" where
  "chunk_indices_of support =
     (case grounding_chunk_indices support of None \<Rightarrow> [] | Some ixs \<Rightarrow> ixs)"

text \<open>The loop over \<^verbatim>\<open>event.grounding_metadata.grounding_supports\<close>.\<close>

fun supports_loop ::
  "chunk_map \<Rightarrow> GroundingSupport list \<Rightarrow> source_map \<Rightarrow> error + source_map" where
  "supports_loop chunks_info [] sources = Inr sources"
| "supports_loop chunks_info (support # rest) sources =
     (case indices_loop support chunks_info 0 (chunk_indices_of support) sources of
        Inl e \<Rightarrow> Inl e
      | Inr sources' \<Rightarrow> supports_loop chunks_info rest sources')"

text \<open>
  The chunks of an event that the callback processes:
  \<^verbatim>\<open>event.grounding_metadata and event.grounding_metadata.grounding_chunks\<close> is false
  for absent metadata, an absent list and an empty list. The supports are read only
  under that test; \<^verbatim>\<open>if event.grounding_metadata.grounding_supports\<close> is false for an
  absent and for an empty list.
\<close>

definition event_chunks :: "session_event \<Rightarrow> GroundingChunk list" where
  "event_chunks event =
     (case grounding_metadata event of
        None \<Rightarrow> []
      | Some md \<Rightarrow> (case grounding_chunks md of None \<Rightarrow> [] | Some chunks \<Rightarrow> chunks))"

definition event_supports :: "session_event \<Rightarrow> GroundingSupport list" where
  "event_supports event =
     (case grounding_metadata event of
        None \<Rightarrow> []
      | Some md \<Rightarrow> (case grounding_supports md of None \<Rightarrow> [] | Some supports \<Rightarrow> supports))"

text \<open>The loop over \<^verbatim>\<open>session.events\<close>; \<open>chunks_info\<close> starts empty for every event.\<close>

fun events_loop ::
  "session_event list \<Rightarrow> url_map \<times> source_map \<times> nat \<Rightarrow> error + url_map \<times> source_map \<times> nat" where
  "events_loop [] acc = Inr acc"
| "events_loop (event # rest) (url_to_short_id, sources, id_counter) =
     (if event_chunks event = [] then events_loop rest (url_to_short_id, sources, id_counter)
      else
        (case chunks_loop 0 (event_chunks event) (url_to_short_id, sources, id_counter, []) of
           (url_to_short_id', sources', id_counter', chunks_info) \<Rightarrow>
             (case supports_loop chunks_info (event_supports event) sources' of
                Inl e \<Rightarrow> Inl e
              | Inr sources'' \<Rightarrow> events_loop rest (url_to_short_id', sources'', id_counter'))))"

text \<open>
  The state of the callback context, one optional field per key the two callbacks use
  (\<open>st_sources\<close> is the key \<^verbatim>\<open>"sources"\<close>, and so on).
\<close>

record callback_state =
  st_url_to_short_id :: "url_map option"
  st_sources :: "source_map option"
  st_final_cited_report :: "string option"
  st_final_report_with_citations :: "string option"

definition empty_state :: callback_state where
  "empty_state =
     \<lparr>st_url_to_short_id = None, st_sources = None, st_final_cited_report = None,
      st_final_report_with_citations = None\<rparr>"

text \<open>\<^verbatim>\<open>callback_context.state.get(key, {})\<close>\<close>

definition get_url_to_short_id :: "callback_state \<Rightarrow> url_map" where
  "get_url_to_short_id st = (case st_url_to_short_id st of None \<Rightarrow> [] | Some d \<Rightarrow> d)"

definition get_sources :: "callback_state \<Rightarrow> source_map" where
  "get_sources st = (case st_sources st of None \<Rightarrow> [] | Some d \<Rightarrow> d)"

text \<open>
  \<^verbatim>\<open>collect_research_sources_callback\<close>, the registry's \<^verbatim>\<open>record\<close> operation: the
  session events and the state before, the state after or the exception raised.
\<close>

definition collect_research_sources_callback ::
  "session_event list \<Rightarrow> callback_state \<Rightarrow> error + callback_state" where
  "collect_research_sources_callback session_events st =
     (let url_to_short_id = get_url_to_short_id st;
          sources = get_sources st;
          id_counter = length url_to_short_id + 1
      in (case events_loop session_events (url_to_short_id, sources, id_counter) of
            Inl e \<Rightarrow> Inl e
          | Inr (url_to_short_id', sources', id_counter') \<Rightarrow>
              Inr (st\<lparr>st_url_to_short_id := Some url_to_short_id', st_sources := Some sources'\<rparr>)))"

text \<open>A sequence of calls, each with its own list of events.\<close>

fun record_calls :: "session_event list list \<Rightarrow> callback_state \<Rightarrow> error + callback_state" where
  "record_calls [] st = Inr st"
| "record_calls (batch # rest) st =
     (case collect_research_sources_callback batch st of
        Inl e \<Rightarrow> Inl e
      | Inr st' \<Rightarrow> record_calls rest st')"

subsection \<open>What the registry is specified to hold\<close>

text \<open>
  The definitions of this subsection follow the words of the specification; the
  theorems further down relate them to the loops above.

  The claim a support contributes at position \<open>i\<close> of its chunk indices: the
  \<open>i\<close>-th confidence score, 0.5 when the scores are absent or end before \<open>i\<close>;
  the text of the segment as the segment holds it (a string or \<^verbatim>\<open>None\<close>), and the
  empty string when the support has no segment.
\<close>

definition spec_claim :: "GroundingSupport \<Rightarrow> nat \<Rightarrow> supported_claim" where
  "spec_claim support i =
     \<lparr>text_segment =
        (case segment support of None \<Rightarrow> PyStr [] | Some g \<Rightarrow> segment_text g),
      confidence =
        (case confidence_scores support of
           None \<Rightarrow> 0.5
         | Some scores \<Rightarrow> if i < length scores then scores ! i else 0.5)\<rparr>"

text \<open>
  The claims one support contributes to the source \<open>short_id\<close>: one for every
  position of the index list \<open>ixs\<close> (positions counted from \<open>i\<close>) whose chunk index
  the local mapping \<open>lookup\<close> sends to \<open>short_id\<close>, in the order of the positions.
\<close>

definition support_claims ::
  "(int \<Rightarrow> string option) \<Rightarrow> GroundingSupport \<Rightarrow> nat \<Rightarrow> int list \<Rightarrow> string
     \<Rightarrow> supported_claim list" where
  "support_claims lookup support i ixs short_id =
     map (\<lambda>(i, chunk_idx). spec_claim support i)
       (filter (\<lambda>(i, chunk_idx). lookup chunk_idx = Some short_id) (enumerate i ixs))"

definition event_claims ::
  "(int \<Rightarrow> string option) \<Rightarrow> GroundingSupport list \<Rightarrow> string \<Rightarrow> supported_claim list" where
  "event_claims lookup supports short_id =
     concat (map (\<lambda>support. support_claims lookup support 0 (chunk_indices_of support) short_id)
       supports)"

text \<open>
  The local mapping of an event from chunk index to short id, given the URL map: the
  index of a web chunk goes to the short id of its URL, any other index to nothing.
\<close>

definition chunk_short_id :: "url_map \<Rightarrow> GroundingChunk list \<Rightarrow> int \<Rightarrow> string option" where
  "chunk_short_id u chunks k =
     (if 0 \<le> k \<and> k < int (length chunks)
      then (case web (chunks ! nat k) of None \<Rightarrow> None | Some w \<Rightarrow> map_of u (uri w))
      else None)"

definition batch_claims :: "url_map \<Rightarrow> session_event list \<Rightarrow> string \<Rightarrow> supported_claim list" where
  "batch_claims u session_events short_id =
     concat (map (\<lambda>event. event_claims (chunk_short_id u (event_chunks event))
                            (event_supports event) short_id) session_events)"

text \<open>
  \<open>add_claims new sources\<close> appends \<open>new short_id\<close> to the claims of every source
  \<open>short_id\<close> and changes nothing else: no key, no order, no other field.
\<close>

definition add_claims :: "(string \<Rightarrow> supported_claim list) \<Rightarrow> source_map \<Rightarrow> source_map" where
  "add_claims new srcs =
     map (\<lambda>(short_id, info).
            (short_id,
             info\<lparr>supported_claims := map_option (\<lambda>cs. cs @ new short_id) (supported_claims info)\<rparr>))
       srcs"

definition has_claims :: "source_map \<Rightarrow> string \<Rightarrow> bool" where
  "has_claims srcs short_id =
     (case map_of srcs short_id of None \<Rightarrow> False | Some info \<Rightarrow> supported_claims info \<noteq> None)"

text \<open>The URLs of the web chunks of a chunk list, and of a list of events.\<close>

definition chunk_urls :: "GroundingChunk list \<Rightarrow> optional_str list" where
  "chunk_urls chunks = List.map_filter (\<lambda>chunk. map_option uri (web chunk)) chunks"

definition batch_urls :: "session_event list \<Rightarrow> optional_str list" where
  "batch_urls session_events = concat (map (\<lambda>event. chunk_urls (event_chunks event)) session_events)"

text \<open>
  The invariant of the registry: the keys of the URL map are distinct, its values are
  \<^verbatim>\<open>src-1\<close>, ..., \<^verbatim>\<open>src-n\<close> in insertion order, the keys of the sources are those
  short ids in the same order, and every source has its list of claims.
\<close>

definition registry_inv :: "url_map \<Rightarrow> source_map \<Rightarrow> bool" where
  "registry_inv u s \<longleftrightarrow>
     distinct (map fst u)
     \<and> map snd u = map (\<lambda>i. mint_short_id (Suc i)) [0..<length u]
     \<and> map fst s = map snd u
     \<and> list_all (\<lambda>(k, info). supported_claims info \<noteq> None) s"

definition registry_ok :: "callback_state \<Rightarrow> bool" where
  "registry_ok st = registry_inv (get_url_to_short_id st) (get_sources st)"

text \<open>Sources that have no claim yet, as the chunk loop creates them.\<close>

definition fresh_sources :: "source_map \<Rightarrow> bool" where
  "fresh_sources s = list_all (\<lambda>(k, info). supported_claims info = Some []) s"

text \<open>
  The chunk mapping after the chunk loop has run over \<open>chunks\<close> from index \<open>idx\<close>,
  in terms of the mapping \<open>before\<close> and the URL map \<open>u\<close> at the end of the loop.
\<close>

definition lookup_after ::
  "nat \<Rightarrow> GroundingChunk list \<Rightarrow> url_map \<Rightarrow> (int \<Rightarrow> string option) \<Rightarrow> int \<Rightarrow> string option" where
  "lookup_after idx chunks u before k =
     (if int idx \<le> k \<and> k < int (idx + length chunks)
      then (case web (chunks ! nat (k - int idx)) of
              None \<Rightarrow> before k
            | Some w \<Rightarrow> map_of u (uri w))
      else before k)"

subsection \<open>Example inputs\<close>

text \<open>
  An event with one web chunk and one support for it, and the registry after the
  callback has run on that event once and twice.
\<close>

definition example_event :: session_event where
  "example_event =
     \<lparr>grounding_metadata = Some
        \<lparr>grounding_chunks = Some
           [\<lparr>web = Some \<lparr>uri = PyStr ''http://x'', title = PyStr ''Example'',
                          domain = PyStr ''x''\<rparr>\<rparr>],
         grounding_supports = Some
           [\<lparr>segment = Some \<lparr>segment_text = PyStr ''fact''\<rparr>,
             confidence_scores = Some [0.9],
             grounding_chunk_indices = Some [0]\<rparr>]\<rparr>\<rparr>"

definition example_source :: "supported_claim list \<Rightarrow> source_info" where
  "example_source claims =
     \<lparr>src_short_id = Some ''src-1'', src_title = Some (PyStr ''Example''),
      src_url = Some (PyStr ''http://x''), src_domain = Some (PyStr ''x''),
      supported_claims = Some claims\<rparr>"

definition registry_once :: callback_state where
  "registry_once =
     \<lparr>st_url_to_short_id = Some [(PyStr ''http://x'', ''src-1'')],
      st_sources = Some [(''src-1'',
        example_source [\<lparr>text_segment = PyStr ''fact'', confidence = 0.9\<rparr>])],
      st_final_cited_report = None,
      st_final_report_with_citations = None\<rparr>"

definition registry_twice :: callback_state where
  "registry_twice =
     \<lparr>st_url_to_short_id = Some [(PyStr ''http://x'', ''src-1'')],
      st_sources = Some [(''src-1'',
        example_source [\<lparr>text_segment = PyStr ''fact'', confidence = 0.9\<rparr>,
                        \<lparr>text_segment = PyStr ''fact'', confidence = 0.9\<rparr>])],
      st_final_cited_report = None,
      st_final_report_with_citations = None\<rparr>"

text \<open>
  An event with two web chunks and a support without a segment that has one
  confidence score for three chunk indices, the last of which names no chunk; and a
  second event that repeats the second URL and brings a new one.
\<close>

definition short_scores_event :: session_event where
  "short_scores_event =
     \<lparr>grounding_metadata = Some
        \<lparr>grounding_chunks = Some
           [\<lparr>web = Some \<lparr>uri = PyStr ''http://a'', title = PyStr ''A'', domain = PyStr ''a''\<rparr>\<rparr>,
            \<lparr>web = Some \<lparr>uri = PyStr ''http://b'', title = PyStr ''b'', domain = PyStr ''b''\<rparr>\<rparr>],
         grounding_supports = Some
           [\<lparr>segment = None,
             confidence_scores = Some [0.9],
             grounding_chunk_indices = Some [0, 1, 7]\<rparr>]\<rparr>\<rparr>"

definition overlapping_event :: session_event where
  "overlapping_event =
     \<lparr>grounding_metadata = Some
        \<lparr>grounding_chunks = Some
           [\<lparr>web = Some \<lparr>uri = PyStr ''http://b'', title = PyStr ''b'', domain = PyStr ''b''\<rparr>\<rparr>,
            \<lparr>web = None\<rparr>,
            \<lparr>web = Some \<lparr>uri = PyStr ''http://c'', title = PyStr ''C'', domain = PyStr ''c''\<rparr>\<rparr>],
         grounding_supports = None\<rparr>\<rparr>"

text \<open>
  An event with one web chunk and one support for it whose segment is present and
  holds no text (\<^verbatim>\<open>segment.text\<close> is \<^verbatim>\<open>None\<close>), and the registry after the
  callback has run on that event.
\<close>

definition null_text_event :: session_event where
  "null_text_event =
     \<lparr>grounding_metadata = Some
        \<lparr>grounding_chunks = Some
           [\<lparr>web = Some \<lparr>uri = PyStr ''http://x'', title = PyStr ''Example'',
                          domain = PyStr ''x''\<rparr>\<rparr>],
         grounding_supports = Some
           [\<lparr>segment = Some \<lparr>segment_text = PyNone\<rparr>,
             confidence_scores = Some [0.9],
             grounding_chunk_indices = Some [0]\<rparr>]\<rparr>\<rparr>"

definition null_text_registry :: callback_state where
  "null_text_registry =
     \<lparr>st_url_to_short_id = Some [(PyStr ''http://x'', ''src-1'')],
      st_sources = Some [(''src-1'',
        example_source [\<lparr>text_segment = PyNone, confidence = 0.9\<rparr>])],
      st_final_cited_report = None,
      st_final_report_with_citations = None\<rparr>"

section \<open>Citation rewriting\<close>

text \<open>
  A Python string is the list of its code points; a \<open>char\<close> stands for a code point
  below 256, which covers every character the two patterns of
  \<^verbatim>\<open>citation_replacement_callback\<close> name. On these code points \<^verbatim>\<open>\s\<close> matches the
  characters Python counts as whitespace (tab to carriage return, the four separators
  0x1C to 0x1F, the space, NEL and the no-break space) and \<^verbatim>\<open>\d\<close> matches the ten
  decimal digits.
\<close>

definition is_space :: "char \<Rightarrow> bool" where
  "is_space c \<longleftrightarrow>
     c \<in> set [CHR 0x09, CHR 0x0A, CHR 0x0B, CHR 0x0C, CHR 0x0D, CHR 0x1C, CHR 0x1D,
              CHR 0x1E, CHR 0x1F, CHR 0x20, CHR 0x85, CHR 0xA0]"

definition is_digit :: "char \<Rightarrow> bool" where
  "is_digit c \<longleftrightarrow> c \<in> set ''0123456789''"

text \<open>The class \<^verbatim>\<open>["\']\<close>: the double quote 0x22 and the single quote 0x27.\<close>

definition is_quote :: "char \<Rightarrow> bool" where
  "is_quote c \<longleftrightarrow> c = CHR 0x22 \<or> c = CHR 0x27"

text \<open>The class \<^verbatim>\<open>[.,;:]\<close>.\<close>

definition is_punct :: "char \<Rightarrow> bool" where
  "is_punct c \<longleftrightarrow> c \<in> set ''.,;:''"

text \<open>
  The two patterns use literal text, one character of a class, and a class under
  \<^verbatim>\<open>?\<close>, \<^verbatim>\<open>*\<close> or \<^verbatim>\<open>+\<close>, each with one capturing group. \<open>Mark\<close> stands for a
  parenthesis of the group.
\<close>

datatype re_item =
    Lit string
  | One "char \<Rightarrow> bool"
  | Opt "char \<Rightarrow> bool"
  | Star "char \<Rightarrow> bool"
  | Plus "char \<Rightarrow> bool"
  | Mark

text \<open>
  Matching a pattern at the start of a string, the way the backtracking matcher of
  \<^verbatim>\<open>re\<close> does: the quantifiers are greedy, so \<^verbatim>\<open>?\<close> and \<^verbatim>\<open>*\<close> first try to take
  a character and the rest of the pattern after it, and fall back to taking none when
  that fails. \<open>pos\<close> counts the characters consumed so far. The result is the
  positions of the group parentheses passed and the position where the match ends.
\<close>

fun re_run :: "re_item list \<Rightarrow> nat \<Rightarrow> string \<Rightarrow> (nat list \<times> nat) option" where
  "re_run [] pos s = Some ([], pos)"
| "re_run (Mark # items) pos s =
     (case re_run items pos s of
        None \<Rightarrow> None
      | Some (marks, end_pos) \<Rightarrow> Some (pos # marks, end_pos))"
| "re_run (Lit l # items) pos s =
     (if take (length l) s = l then re_run items (pos + length l) (drop (length l) s) else None)"
| "re_run (One p # items) pos s =
     (case s of
        [] \<Rightarrow> None
      | c # r \<Rightarrow> if p c then re_run items (Suc pos) r else None)"
| "re_run (Opt p # items) pos s =
     (case s of
        [] \<Rightarrow> re_run items pos []
      | c # r \<Rightarrow>
          if p c
          then (case re_run items (Suc pos) r of
                  Some m \<Rightarrow> Some m
                | None \<Rightarrow> re_run items pos s)
          else re_run items pos s)"
| "re_run (Star p # items) pos s =
     (case s of
        [] \<Rightarrow> re_run items pos []
      | c # r \<Rightarrow>
          if p c
          then (case re_run (Star p # items) (Suc pos) r of
                  Some m \<Rightarrow> Some m
                | None \<Rightarrow> re_run items pos s)
          else re_run items pos s)"
| "re_run (Plus p # items) pos s =
     (case s of
        [] \<Rightarrow> None
      | c # r \<Rightarrow> if p c then re_run (Star p # items) (Suc pos) r else None)"

text \<open>
  \<^verbatim>\<open>r'<cite\s+source\s*=\s*["\']?\s*(src-\d+)\s*["\']?\s*/>'\<close> and
  \<^verbatim>\<open>r"\s+([.,;:])"\<close>.
\<close>

definition cite_pattern :: "re_item list" where
  "cite_pattern =
     [Lit ''<cite'', Plus is_space, Lit ''source'', Star is_space, Lit ''='', Star is_space,
      Opt is_quote, Star is_space, Mark, Lit ''src-'', Plus is_digit, Mark, Star is_space,
      Opt is_quote, Star is_space, Lit ''/>'']"

definition spacing_pattern :: "re_item list" where
  "spacing_pattern = [Plus is_space, Mark, One is_punct, Mark]"

text \<open>
  A match object of a pattern with one group: \<^verbatim>\<open>match.group(0)\<close> and
  \<^verbatim>\<open>match.group(1)\<close>. \<open>re_match\<close> also returns the text after the match.
\<close>

record Match =
  group0 :: string
  group1 :: string

definition re_match :: "re_item list \<Rightarrow> string \<Rightarrow> (Match \<times> string) option" where
  "re_match pattern s =
     (case re_run pattern 0 s of
        Some ([group_start, group_end], end_pos) \<Rightarrow>
          Some (\<lparr>group0 = take end_pos s,
                 group1 = take (group_end - group_start) (drop group_start s)\<rparr>,
                drop end_pos s)
      | _ \<Rightarrow> None)"

text \<open>
  A match of the pattern at the start of \<open>s\<close> that consumes at least one
  character. Neither pattern of the source can match the empty string, so for them
  this is \<open>re_match\<close>.
\<close>

definition re_find :: "re_item list \<Rightarrow> string \<Rightarrow> (Match \<times> string) option" where
  "re_find pattern s =
     (case re_match pattern s of
        None \<Rightarrow> None
      | Some (m, rest) \<Rightarrow> if length rest < length s then Some (m, rest) else None)"

text \<open>
  \<^verbatim>\<open>re.sub(pattern, repl, string)\<close>: scan from the left; where the pattern matches,
  emit the replacement and go on after the match; elsewhere copy one character. The
  replacement function may raise, and may log warnings, which are collected in order.
\<close>

function re_sub ::
  "re_item list \<Rightarrow> (Match \<Rightarrow> error + string \<times> string list) \<Rightarrow> string
     \<Rightarrow> error + string \<times> string list" where
  "re_sub pattern repl s =
     (case re_find pattern s of
        Some (m, rest) \<Rightarrow>
          (case repl m of
             Inl e \<Rightarrow> Inl e
           | Inr (text_out, warnings) \<Rightarrow>
               (case re_sub pattern repl rest of
                  Inl e \<Rightarrow> Inl e
                | Inr (out, more_warnings) \<Rightarrow> Inr (text_out @ out, warnings @ more_warnings)))
      | None \<Rightarrow>
          (case s of
             [] \<Rightarrow> Inr ([], [])
           | c # r \<Rightarrow>
               (case re_sub pattern repl r of
                  Inl e \<Rightarrow> Inl e
                | Inr (out, warnings) \<Rightarrow> Inr (c # out, warnings))))"
  by pat_completeness auto
termination
  by (relation "measure (\<lambda>(pattern, repl, s). length s)")
    (auto simp add: re_find_def split: option.splits if_splits)

text \<open>Python's truth value of a source dictionary: true unless it has no key.\<close>

definition source_truthy :: "source_info \<Rightarrow> bool" where
  "source_truthy info =
     (\<not> (src_short_id info = None \<and> src_title info = None \<and> src_url info = None
         \<and> src_domain info = None \<and> supported_claims info = None))"

text \<open>
  \<^verbatim>\<open>tag_replacer\<close>. \<^verbatim>\<open>sources.get(short_id)\<close> is false for a missing key and for an
  empty dictionary; the warning is what \<^verbatim>\<open>logging.warning\<close> is given.
  \<^verbatim>\<open>source_info.get("title", source_info.get("domain", short_id))\<close> takes the value
  under \<^verbatim>\<open>title\<close> when the key is present, whatever the value, else the one under
  \<^verbatim>\<open>domain\<close> when that key is present, else the short id;
  \<^verbatim>\<open>source_info['url']\<close> raises \<^verbatim>\<open>KeyError\<close> when the key is missing. The f-string
  formats both values, so \<^verbatim>\<open>None\<close> comes out as the text \<^verbatim>\<open>None\<close>.
\<close>

definition tag_replacer :: "source_map \<Rightarrow> Match \<Rightarrow> error + string \<times> string list" where
  "tag_replacer srcs m =
     (let short_id = group1 m
      in (case (case map_of srcs short_id of
                  None \<Rightarrow> None
                | Some info \<Rightarrow> if source_truthy info then Some info else None) of
            None \<Rightarrow> Inr ([], [''Invalid citation tag found and removed: '' @ group0 m])
          | Some source_info \<Rightarrow>
              let display_text =
                    (case src_title source_info of
                       Some t \<Rightarrow> t
                     | None \<Rightarrow>
                         (case src_domain source_info of
                            Some d \<Rightarrow> d
                          | None \<Rightarrow> PyStr short_id))
              in (case src_url source_info of
                    None \<Rightarrow> Inl KeyError
                  | Some url \<Rightarrow>
                      Inr ('' ['' @ format_value display_text @ '']('' @ format_value url @ '')'',
                           []))))"

text \<open>The replacement template \<^verbatim>\<open>r"\1"\<close>.\<close>

definition group1_template :: "Match \<Rightarrow> error + string \<times> string list" where
  "group1_template m = Inr (group1 m, [])"

text \<open>
  The first substitution of the callback,
  \<^verbatim>\<open>re.sub(r'<cite...', tag_replacer, final_report)\<close>, and the second,
  \<^verbatim>\<open>re.sub(r"\s+([.,;:])", r"\1", processed_report)\<close>.
\<close>

definition cite_sub :: "source_map \<Rightarrow> string \<Rightarrow> error + string \<times> string list" where
  "cite_sub srcs final_report = re_sub cite_pattern (tag_replacer srcs) final_report"

definition spacing_sub :: "string \<Rightarrow> error + string \<times> string list" where
  "spacing_sub processed_report = re_sub spacing_pattern group1_template processed_report"

text \<open>
  The two substitutions in sequence: the processed report and the warnings logged, or
  the exception raised.
\<close>

definition process_report :: "source_map \<Rightarrow> string \<Rightarrow> error + string \<times> string list" where
  "process_report srcs final_report =
     (case cite_sub srcs final_report of
        Inl e \<Rightarrow> Inl e
      | Inr (processed_report, warnings) \<Rightarrow>
          (case spacing_sub processed_report of
             Inl e \<Rightarrow> Inl e
           | Inr (processed_report', _) \<Rightarrow> Inr (processed_report', warnings)))"

text \<open>
  \<^verbatim>\<open>citation_replacement_callback\<close>: the state with the processed report stored under
  \<^verbatim>\<open>final_report_with_citations\<close>, the text of the content returned, and the warnings.
\<close>

definition citation_replacement_callback ::
  "callback_state \<Rightarrow> error + callback_state \<times> string \<times> string list" where
  "citation_replacement_callback st =
     (let final_report = (case st_final_cited_report st of None \<Rightarrow> [] | Some r \<Rightarrow> r);
          srcs = get_sources st
      in (case process_report srcs final_report of
            Inl e \<Rightarrow> Inl e
          | Inr (processed_report, warnings) \<Rightarrow>
              Inr (st\<lparr>st_final_report_with_citations := Some processed_report\<rparr>,
                   processed_report, warnings)))"

subsection \<open>Markers and tags, as text\<close>

text \<open>
  The text of a recognized citation marker: \<^verbatim>\<open><cite\<close>, whitespace, \<^verbatim>\<open>source\<close>,
  optional whitespace around \<^verbatim>\<open>=\<close>, an optional quote with optional whitespace
  after it, \<^verbatim>\<open>src-\<close> and digits, optional whitespace, an optional quote with optional
  whitespace after it, and \<^verbatim>\<open>/>\<close>. A layout holds the parts that may vary.
\<close>

record cite_layout =
  ws_after_cite :: string
  ws_before_eq :: string
  ws_after_eq :: string
  open_quote :: "(char \<times> string) option"
  id_digits :: string
  ws_after_id :: string
  close_quote :: "(char \<times> string) option"

definition quote_text :: "(char \<times> string) option \<Rightarrow> string" where
  "quote_text q = (case q of None \<Rightarrow> [] | Some (c, ws) \<Rightarrow> c # ws)"

definition quote_ok :: "(char \<times> string) option \<Rightarrow> bool" where
  "quote_ok q = (case q of None \<Rightarrow> True | Some (c, ws) \<Rightarrow> is_quote c \<and> list_all is_space ws)"

definition layout_ok :: "cite_layout \<Rightarrow> bool" where
  "layout_ok L \<longleftrightarrow>
     ws_after_cite L \<noteq> [] \<and> list_all is_space (ws_after_cite L)
     \<and> list_all is_space (ws_before_eq L) \<and> list_all is_space (ws_after_eq L)
     \<and> quote_ok (open_quote L)
     \<and> id_digits L \<noteq> [] \<and> list_all is_digit (id_digits L)
     \<and> list_all is_space (ws_after_id L)
     \<and> quote_ok (close_quote L)"

definition marker_id :: "cite_layout \<Rightarrow> string" where
  "marker_id L = ''src-'' @ id_digits L"

definition cite_tag :: "cite_layout \<Rightarrow> string" where
  "cite_tag L =
     ''<cite'' @ ws_after_cite L @ ''source'' @ ws_before_eq L @ ''='' @ ws_after_eq L
     @ quote_text (open_quote L) @ marker_id L @ ws_after_id L
     @ quote_text (close_quote L) @ ''/>''"

text \<open>
  The wire format \<^verbatim>\<open><cite source="src-N"/>\<close> as a layout.
\<close>

definition wire_layout :: "string \<Rightarrow> cite_layout" where
  "wire_layout digits =
     \<lparr>ws_after_cite = '' '', ws_before_eq = [], ws_after_eq = [],
      open_quote = Some (CHR 0x22, []), id_digits = digits, ws_after_id = [],
      close_quote = Some (CHR 0x22, [])\<rparr>"

text \<open>
  A cite tag with a \<^verbatim>\<open>source\<close> attribute, as text: \<^verbatim>\<open><cite\<close>, the text \<open>ws1\<close>,
  \<^verbatim>\<open>source\<close>, the text \<open>ws2\<close>, \<^verbatim>\<open>=\<close>, the text \<open>rest\<close> and \<^verbatim>\<open>/>\<close>. \<open>ws1\<close> is
  what stands before the attribute name (whitespace, and any attribute before this
  one), \<open>ws2\<close> is what stands between the name and \<^verbatim>\<open>=\<close>, and \<open>rest\<close> is all that
  stands between \<^verbatim>\<open>=\<close> and \<^verbatim>\<open>/>\<close>, quotes included. \<open>tag_with_value v ws\<close> is the
  tag \<^verbatim>\<open><cite source="v"/>\<close> with the text \<open>ws\<close> before \<^verbatim>\<open>/>\<close>.
\<close>

definition attr_tag :: "string \<Rightarrow> string \<Rightarrow> string \<Rightarrow> string" where
  "attr_tag ws1 ws2 rest = ''<cite'' @ ws1 @ ''source'' @ ws2 @ ''='' @ rest @ ''/>''"

definition tag_with_value :: "string \<Rightarrow> string \<Rightarrow> string" where
  "tag_with_value v ws = attr_tag '' '' [] ([CHR 0x22] @ v @ [CHR 0x22] @ ws)"



fun drop_quote :: "string \<Rightarrow> string" where
  "drop_quote [] = []"
| "drop_quote (c # r) = (if is_quote c then r else c # r)"

definition unquote :: "string \<Rightarrow> string" where
  "unquote s = rev (drop_quote (rev (drop_quote s)))"




definition removal_warning :: "string \<Rightarrow> string" where
  "removal_warning tag = ''Invalid citation tag found and removed: '' @ tag"

text \<open>
  Running one substitution after another on two pieces of text: the outputs and the
  warnings are concatenated; an exception in either piece is the result.
\<close>

definition then_sub ::
  "error + string \<times> string list \<Rightarrow> error + string \<times> string list
     \<Rightarrow> error + string \<times> string list" where
  "then_sub x y =
     (case x of
        Inl e \<Rightarrow> Inl e
      | Inr (out1, warnings1) \<Rightarrow>
          (case y of
             Inl e \<Rightarrow> Inl e
           | Inr (out2, warnings2) \<Rightarrow> Inr (out1 @ out2, warnings1 @ warnings2)))"

text \<open>The text the second substitution produces; it never raises.\<close>

definition fix_spacing :: "string \<Rightarrow> string" where
  "fix_spacing s = (case spacing_sub s of Inl e \<Rightarrow> s | Inr (t, warnings) \<Rightarrow> t)"

text \<open>A character that no part of a pattern item can consume.\<close>

fun item_rejects :: "char \<Rightarrow> re_item \<Rightarrow> bool" where
  "item_rejects c (Lit l) = (c \<notin> set l)"
| "item_rejects c (One p) = (\<not> p c)"
| "item_rejects c (Opt p) = (\<not> p c)"
| "item_rejects c (Star p) = (\<not> p c)"
| "item_rejects c (Plus p) = (\<not> p c)"
| "item_rejects c Mark = True"

text \<open>
  The part of the citation pattern after the opening quote, and its part after the
  digits.
\<close>

definition value_pattern :: "re_item list" where
  "value_pattern =
     [Star is_space, Mark, Lit ''src-'', Plus is_digit, Mark, Star is_space,
      Opt is_quote, Star is_space, Lit ''/>'']"

definition close_pattern :: "re_item list" where
  "close_pattern = [Star is_space, Opt is_quote, Star is_space, Lit ''/>'']"

subsection \<open>Example reports\<close>

text \<open>
  The draft \<^verbatim>\<open>Fee <cite source="src-1"/> , Bar.\<close> and a registry that holds
  \<^verbatim>\<open>src-1\<close> with the title \<^verbatim>\<open>Example\<close> and the URL \<^verbatim>\<open>http://x\<close>.
\<close>

definition fee_draft :: string where
  "fee_draft = ''Fee '' @ cite_tag (wire_layout ''1'') @ '' , Bar.''"

definition fee_source :: source_info where
  "fee_source =
     \<lparr>src_short_id = None, src_title = Some (PyStr ''Example''),
      src_url = Some (PyStr ''http://x''),
      src_domain = None, supported_claims = None\<rparr>"

definition fee_registry :: source_map where
  "fee_registry = [(''src-1'', fee_source)]"



text \<open>
  A draft in which the marker \<^verbatim>\<open><cite source="src-99"/>\<close> stands inside the text
  \<^verbatim>\<open><cite source="src-\<close> ... \<^verbatim>\<open>99"/>\<close>, and a draft with the tag
  \<^verbatim>\<open><cite source=" src-1"/>\<close>, whose attribute value starts with a space.
\<close>

definition nested_draft :: string where
  "nested_draft =
     ''a<cite source='' @ [CHR 0x22] @ ''src-'' @ cite_tag (wire_layout ''99'')
     @ ''99'' @ [CHR 0x22] @ ''/>b''"











section \<open>The evaluation gate\<close>

text \<open>
  C6. \<^verbatim>\<open>EscalationChecker._run_async_impl\<close> escalates (the gate says stop) if and only
  if an evaluation is present under \<^verbatim>\<open>research_evaluation\<close> and its grade is
  \<^verbatim>\<open>"pass"\<close>. It does not escalate when the evaluation is absent, and for the
  dictionary of a \<open>Feedback\<close> value it escalates exactly when the grade is \<open>Pass\<close>,
  so not for \<open>Fail\<close>.
\<close>

theorem EscalationChecker_escalates_iff_pass:
  "(escalate (EscalationChecker_run_async_impl name ev) \<longleftrightarrow>
      (\<exists>d. ev = Some d \<and> ev_grade d = Some ''pass''))
   \<and> escalate (EscalationChecker_run_async_impl name None) = False
   \<and> escalate (EscalationChecker_run_async_impl name (Some (model_dump fb))) = (grade fb = Pass)"
  by (cases ev; cases "grade fb")
    (auto simp add: EscalationChecker_run_async_impl_def evaluation_truthy_def
      model_dump_def grade_str_def)

theorem EscalationChecker_escalates_iff_pass_witness:
  "escalate (EscalationChecker_run_async_impl ''escalation_checker''
      (Some (model_dump \<lparr>grade = Pass, comment = ''ok'', follow_up_queries = None\<rparr>)))
   \<and> \<not> escalate (EscalationChecker_run_async_impl ''escalation_checker''
      (Some (model_dump \<lparr>grade = Fail, comment = ''gaps'', follow_up_queries = None\<rparr>)))
   \<and> \<not> escalate (EscalationChecker_run_async_impl ''escalation_checker'' None)"
  using EscalationChecker_escalates_iff_pass
    [of "''escalation_checker''" None "\<lparr>grade = Pass, comment = ''ok'', follow_up_queries = None\<rparr>"]
    EscalationChecker_escalates_iff_pass
    [of "''escalation_checker''" None "\<lparr>grade = Fail, comment = ''gaps'', follow_up_queries = None\<rparr>"]
  by simp

section \<open>The refinement loop\<close>

text \<open>
  One pass over the two sub-agents of the loop stores the evaluation and yields one
  event of each, neither of them escalating, whatever the grade is.
\<close>

lemma run_sub_agents_source:
  "run_sub_agents out loop_sub_agents st = (Some out, loop_pass, False)"
  by (simp add: loop_sub_agents_def run_sub_agent_def agent_name_def loop_pass_def)

lemma LoopAgent_run_source:
  "LoopAgent_run n loop_sub_agents llm t st evs =
     \<lparr>final_state = Exhausted,
      final_evaluation = (if t < n then Some (llm (n - 1)) else st),
      events = evs @ concat (replicate (n - t) loop_pass),
      iteration = max t n\<rparr>"
proof (induction "n - t" arbitrary: t st evs)
  case 0
  then show ?case by simp
next
  case (Suc k)
  then have lt: "t < n" and k: "k = n - Suc t" by auto
  have "LoopAgent_run n loop_sub_agents llm t st evs =
        LoopAgent_run n loop_sub_agents llm (Suc t) (Some (llm t)) (evs @ loop_pass)"
    using lt by (simp add: run_sub_agents_source)
  also have "\<dots> = \<lparr>final_state = Exhausted,
      final_evaluation = (if Suc t < n then Some (llm (n - 1)) else Some (llm t)),
      events = (evs @ loop_pass) @ concat (replicate (n - Suc t) loop_pass),
      iteration = max (Suc t) n\<rparr>"
    using Suc.hyps(1) [OF k] by simp
  also have "\<dots> = \<lparr>final_state = Exhausted,
      final_evaluation = (if t < n then Some (llm (n - 1)) else st),
      events = evs @ concat (replicate (n - t) loop_pass),
      iteration = max t n\<rparr>"
  proof -
    have "n - t = Suc (n - Suc t)" using lt by simp
    moreover have "\<not> Suc t < n \<Longrightarrow> n - 1 = t" using lt by simp
    ultimately show ?thesis using lt by auto
  qed
  finally show ?case .
qed

lemma count_evaluator_passes:
  "length (filter (\<lambda>e. author e = ''research_evaluator'') (concat (replicate k loop_pass))) = k"
  by (induction k) (simp_all add: loop_pass_def)

lemma count_search_passes:
  "length (filter (\<lambda>e. author e = ''enhanced_search_executor'')
     (concat (replicate k loop_pass))) = k"
  by (induction k) (simp_all add: loop_pass_def)

lemma no_escalate_passes:
  "e \<in> set (concat (replicate k loop_pass)) \<Longrightarrow> \<not> escalate e"
  by (induction k) (auto simp add: loop_pass_def)

text \<open>
  C5. When every evaluation is graded \<^verbatim>\<open>"fail"\<close>, the loop of the pipeline runs
  exactly \<open>max_iterations\<close> evaluation steps and \<open>max_iterations\<close> follow-up searches
  and halts in \<open>Exhausted\<close>; the result is a plain value, no event of the run carries
  an escalation, and the counter ends at \<open>max_iterations\<close>. For the configured bound
  this is 2 and 2.
\<close>

theorem all_fail_exhausts:
  assumes "\<forall>i<max_iterations. ev_grade (llm i) = Some ''fail''"
  shows "final_state (LoopAgent_run max_iterations loop_sub_agents llm 0 st []) = Exhausted
       \<and> evaluation_steps (LoopAgent_run max_iterations loop_sub_agents llm 0 st [])
           = max_iterations
       \<and> follow_up_search_steps (LoopAgent_run max_iterations loop_sub_agents llm 0 st [])
           = max_iterations
       \<and> iteration (LoopAgent_run max_iterations loop_sub_agents llm 0 st []) = max_iterations
       \<and> (\<forall>e \<in> set (events (LoopAgent_run max_iterations loop_sub_agents llm 0 st [])).
            \<not> escalate e)
       \<and> final_state (iterative_refinement_loop llm st) = Exhausted
       \<and> evaluation_steps (iterative_refinement_loop llm st) = 2
       \<and> follow_up_search_steps (iterative_refinement_loop llm st) = 2"
  unfolding iterative_refinement_loop_def LoopAgent_run_source evaluation_steps_def
    follow_up_search_steps_def
  using no_escalate_passes [of _ max_iterations]
  by (simp add: count_evaluator_passes count_search_passes)

theorem all_fail_exhausts_witness:
  "final_state (iterative_refinement_loop always_fail None) = Exhausted
   \<and> evaluation_steps (iterative_refinement_loop always_fail None) = 2
   \<and> follow_up_search_steps (iterative_refinement_loop always_fail None) = 2
   \<and> ev_grade (always_fail 0) = Some ''fail'' \<and> ev_grade (always_fail 1) = Some ''fail''"
  using all_fail_exhausts [of 2 always_fail None]
  by (simp add: always_fail_def model_dump_def grade_str_def)

text \<open>
  C1. The run of the pipeline's loop on a failing evaluation in iteration 1 and a
  passing one in iteration 2: the loop as \<^verbatim>\<open>research_pipeline\<close> builds it has no
  sub-agent that reads the grade, so it runs the follow-up search after the passing
  evaluation as well and halts in \<open>Exhausted\<close>, with 2 evaluation steps and 2
  follow-up searches.
\<close>

theorem fail_then_pass_runs_second_search:
  "ev_grade (fail_then_pass 0) = Some ''fail''
   \<and> ev_grade (fail_then_pass 1) = Some ''pass''
   \<and> final_state (iterative_refinement_loop fail_then_pass None) = Exhausted
   \<and> evaluation_steps (iterative_refinement_loop fail_then_pass None) = 2
   \<and> follow_up_search_steps (iterative_refinement_loop fail_then_pass None) = 2"
  unfolding iterative_refinement_loop_def LoopAgent_run_source evaluation_steps_def
    follow_up_search_steps_def
  by (simp add: count_evaluator_passes count_search_passes fail_then_pass_def
      model_dump_def grade_str_def)

text \<open>
  With \<open>escalation_checker\<close> placed between the two sub-agents, the same loop driver
  halts in \<open>Escalated\<close> right after the passing evaluation: 2 evaluation steps,
  1 follow-up search.
\<close>

lemma checked_loop_escalates:
  "LoopAgent_run 2 [research_evaluator, escalation_checker, enhanced_search_executor]
     fail_then_pass 0 None [] =
   \<lparr>final_state = Escalated,
    final_evaluation = Some (fail_then_pass 1),
    events =
      [\<lparr>author = ''research_evaluator'', escalate = False\<rparr>,
       \<lparr>author = ''escalation_checker'', escalate = False\<rparr>,
       \<lparr>author = ''enhanced_search_executor'', escalate = False\<rparr>,
       \<lparr>author = ''research_evaluator'', escalate = False\<rparr>,
       \<lparr>author = ''escalation_checker'', escalate = True\<rparr>],
    iteration = 1\<rparr>"
  by (simp add: run_sub_agent_def agent_name_def EscalationChecker_run_async_impl_def
      evaluation_truthy_def fail_then_pass_def model_dump_def grade_str_def numeral_2_eq_2)

section \<open>The source registry\<close>

subsection \<open>Appending claims\<close>

lemma claim_of_spec: "claim_of support i = spec_claim support i"
  by (simp add: claim_of_def spec_claim_def split: option.splits)

lemma add_claims_keys [simp]: "map fst (add_claims new sources) = map fst sources"
  by (induction sources) (auto simp add: add_claims_def)

lemma add_claims_Nil: "add_claims (\<lambda>_. []) sources = sources"
  by (induction sources) (auto simp add: add_claims_def option.map_ident)

lemma add_claims_add_claims:
  "add_claims g (add_claims f sources) = add_claims (\<lambda>k. f k @ g k) sources"
  by (induction sources) (auto simp add: add_claims_def option.map_comp comp_def)

lemma map_of_add_claims:
  "map_of (add_claims new sources) k =
     map_option (\<lambda>info. info\<lparr>supported_claims := map_option (\<lambda>cs. cs @ new k) (supported_claims info)\<rparr>)
       (map_of sources k)"
  by (induction sources) (auto simp add: add_claims_def)

lemma has_claims_add_claims [simp]: "has_claims (add_claims new sources) k = has_claims sources k"
  by (simp add: has_claims_def map_of_add_claims split: option.splits)

lemma map_other_keys:
  "k \<notin> fst ` set al \<Longrightarrow> map (\<lambda>(k', x). (k', if k' = k then v' else x)) al = al"
  by (induction al) auto

lemma update_as_map:
  "distinct (map fst al) \<Longrightarrow> map_of al k = Some v \<Longrightarrow>
   AList.update k v' al = map (\<lambda>(k', x). (k', if k' = k then v' else x)) al"
proof (induction al)
  case Nil
  then show ?case by simp
next
  case (Cons p al)
  obtain a b where p: "p = (a, b)" by (cases p)
  show ?case
  proof (cases "a = k")
    case True
    have "k \<notin> fst ` set al"
      using Cons.prems(1) p True by simp
    then have "map (\<lambda>(k', x). (k', if k' = k then v' else x)) al = al"
      by (rule map_other_keys)
    with p True show ?thesis by simp
  next
    case False
    with Cons p show ?thesis by simp
  qed
qed

lemma append_claim_add_claims:
  assumes "distinct (map fst sources)" and "has_claims sources short_id"
  shows "append_claim sources short_id c =
         Inr (add_claims (\<lambda>k. if k = short_id then [c] else []) sources)"
proof -
  from assms(2) obtain info cs where info: "map_of sources short_id = Some info"
    and cs: "supported_claims info = Some cs"
    by (auto simp add: has_claims_def split: option.splits)
  have "AList.update short_id (info\<lparr>supported_claims := Some (cs @ [c])\<rparr>) sources =
        map (\<lambda>(k', x). (k', if k' = short_id then info\<lparr>supported_claims := Some (cs @ [c])\<rparr> else x)) sources"
    using update_as_map [OF assms(1) info] .
  also have "\<dots> = add_claims (\<lambda>k. if k = short_id then [c] else []) sources"
    unfolding add_claims_def
  proof (rule map_cong [OF refl])
    fix p assume "p \<in> set sources"
    obtain a b where p: "p = (a, b)" by (cases p)
    show "(case p of (k', x) \<Rightarrow> (k', if k' = short_id then info\<lparr>supported_claims := Some (cs @ [c])\<rparr> else x)) =
          (case p of (sid, y) \<Rightarrow> (sid, y\<lparr>supported_claims := map_option (\<lambda>cs. cs @ (if sid = short_id then [c] else [])) (supported_claims y)\<rparr>))"
    proof (cases "a = short_id")
      case True
      then have "b = info" using \<open>p \<in> set sources\<close> p info assms(1) by simp
      with True p cs show ?thesis by simp
    next
      case False
      with p show ?thesis by (simp add: option.map_ident)
    qed
  qed
  finally show ?thesis using info cs by (simp add: append_claim_def)
qed

lemma indices_loop_add_claims:
  assumes "distinct (map fst sources)"
    and "\<And>chunk_idx short_id. map_of chunks_info chunk_idx = Some short_id \<Longrightarrow> has_claims sources short_id"
  shows "indices_loop support chunks_info i ixs sources =
         Inr (add_claims (support_claims (map_of chunks_info) support i ixs) sources)"
  using assms
proof (induction ixs arbitrary: i sources)
  case Nil
  then show ?case by (simp add: support_claims_def add_claims_Nil)
next
  case (Cons chunk_idx rest)
  show ?case
  proof (cases "map_of chunks_info chunk_idx")
    case None
    have "support_claims (map_of chunks_info) support i (chunk_idx # rest) =
          support_claims (map_of chunks_info) support (Suc i) rest"
      using None by (auto simp add: support_claims_def fun_eq_iff)
    with None Cons show ?thesis by simp
  next
    case (Some short_id)
    let ?one = "\<lambda>k. if k = short_id then [claim_of support i] else []"
    have step: "append_claim sources short_id (claim_of support i) = Inr (add_claims ?one sources)"
      using append_claim_add_claims Cons.prems Some by blast
    have "indices_loop support chunks_info (Suc i) rest (add_claims ?one sources) =
          Inr (add_claims (support_claims (map_of chunks_info) support (Suc i) rest) (add_claims ?one sources))"
      using Cons.prems by (intro Cons.IH) auto
    moreover have "(\<lambda>k. ?one k @ support_claims (map_of chunks_info) support (Suc i) rest k) =
          support_claims (map_of chunks_info) support i (chunk_idx # rest)"
      using Some by (auto simp add: support_claims_def fun_eq_iff claim_of_spec)
    ultimately show ?thesis using Some step by (simp add: add_claims_add_claims)
  qed
qed

lemma digit_char_inj: "a < 10 \<Longrightarrow> b < 10 \<Longrightarrow> digit_char a = digit_char b \<Longrightarrow> a = b"
  by (simp add: digit_char_def split: if_splits; arith)

lemma str_nat_nonempty: "str_nat n \<noteq> []"
  by (subst str_nat.simps) simp

lemma str_nat_inj: "str_nat m = str_nat n \<Longrightarrow> m = n"
proof (induction m arbitrary: n rule: str_nat.induct)
  case (1 m)
  show ?case
  proof (cases "m < 10")
    case True
    then have m: "str_nat m = [digit_char m]" by (subst str_nat.simps) simp
    show ?thesis
    proof (cases "n < 10")
      case n: True
      then have "str_nat n = [digit_char n]" by (subst str_nat.simps) simp
      with m "1.prems" True n show ?thesis by (auto dest: digit_char_inj)
    next
      case False
      then have "str_nat n = str_nat (n div 10) @ [digit_char (n mod 10)]"
        by (subst str_nat.simps) simp
      with m "1.prems" show ?thesis using str_nat_nonempty [of "n div 10"] by auto
    qed
  next
    case False
    then have m: "str_nat m = str_nat (m div 10) @ [digit_char (m mod 10)]"
      by (subst str_nat.simps) simp
    show ?thesis
    proof (cases "n < 10")
      case True
      then have "str_nat n = [digit_char n]" by (subst str_nat.simps) simp
      with m "1.prems" show ?thesis using str_nat_nonempty [of "m div 10"] by auto
    next
      case n: False
      then have "str_nat n = str_nat (n div 10) @ [digit_char (n mod 10)]"
        by (subst str_nat.simps) simp
      with m "1.prems" have a: "str_nat (m div 10) = str_nat (n div 10)"
        and b: "digit_char (m mod 10) = digit_char (n mod 10)" by auto
      from "1.IH" [OF False a] have "m div 10 = n div 10" .
      moreover from b have "m mod 10 = n mod 10"
        using digit_char_inj [of "m mod 10" "n mod 10"] by simp
      ultimately show ?thesis by (metis div_mult_mod_eq)
    qed
  qed
qed

lemma mint_short_id_inj: "mint_short_id m = mint_short_id n \<Longrightarrow> m = n"
  by (simp add: mint_short_id_def str_nat_inj)

lemma distinct_minted: "distinct (map (\<lambda>i. mint_short_id (Suc i)) [a..<b])"
  by (auto simp add: distinct_map inj_on_def dest: mint_short_id_inj)

lemma update_new_key: "k \<notin> fst ` set al \<Longrightarrow> AList.update k v al = al @ [(k, v)]"
  by (induction al) auto

lemma registry_inv_distinct_ids: "registry_inv u s \<Longrightarrow> distinct (map snd u) \<and> distinct (map fst s)"
  by (simp add: registry_inv_def distinct_minted)

lemma registry_inv_has_claims:
  assumes "registry_inv u s" and "map_of u url = Some short_id"
  shows "has_claims s short_id"
proof -
  have "short_id \<in> set (map snd u)" using assms(2) by (force dest: map_of_SomeD)
  then have "short_id \<in> set (map fst s)" using assms(1) unfolding registry_inv_def by metis
  then obtain info where "map_of s short_id = Some info" and "(short_id, info) \<in> set s"
    by (metis (no_types, lifting) image_set map_of_eq_None_iff not_Some_eq map_of_SomeD)
  moreover have "supported_claims info \<noteq> None"
    using assms(1) \<open>(short_id, info) \<in> set s\<close> by (auto simp add: registry_inv_def list_all_iff)
  ultimately show ?thesis by (simp add: has_claims_def)
qed

lemma registry_inv_mint:
  assumes "registry_inv u s" and "map_of u url = None"
  shows "AList.update url (mint_short_id (Suc (length u))) u = u @ [(url, mint_short_id (Suc (length u)))]"
    and "AList.update (mint_short_id (Suc (length u))) info s = s @ [(mint_short_id (Suc (length u)), info)]"
    and "supported_claims info \<noteq> None \<Longrightarrow>
         registry_inv (u @ [(url, mint_short_id (Suc (length u)))]) (s @ [(mint_short_id (Suc (length u)), info)])"
proof -
  have new_url: "url \<notin> fst ` set u" using assms(2) by (simp add: map_of_eq_None_iff)
  then show "AList.update url (mint_short_id (Suc (length u))) u = u @ [(url, mint_short_id (Suc (length u)))]"
    by (rule update_new_key)
  have "mint_short_id (Suc (length u)) \<notin> set (map (\<lambda>i. mint_short_id (Suc i)) [0..<length u])"
    by (auto dest: mint_short_id_inj)
  moreover have "fst ` set s = set (map fst s)" by simp
  ultimately have new_id: "mint_short_id (Suc (length u)) \<notin> fst ` set s"
    using assms(1) unfolding registry_inv_def by metis
  then show "AList.update (mint_short_id (Suc (length u))) info s = s @ [(mint_short_id (Suc (length u)), info)]"
    by (rule update_new_key)
  assume "supported_claims info \<noteq> None"
  then show "registry_inv (u @ [(url, mint_short_id (Suc (length u)))]) (s @ [(mint_short_id (Suc (length u)), info)])"
    using assms(1) new_url by (simp add: registry_inv_def)
qed

lemma map_of_append_Some: "map_of xs k = Some v \<Longrightarrow> map_of (xs @ ys) k = Some v"
  by (simp add: map_of_append)

lemma chunk_urls_Cons:
  "chunk_urls (chunk # rest) =
     (case web chunk of None \<Rightarrow> chunk_urls rest | Some w \<Rightarrow> uri w # chunk_urls rest)"
  by (simp add: chunk_urls_def List.map_filter_simps split: option.splits)

lemma chunk_urls_Nil [simp]: "chunk_urls [] = []"
  by (simp add: chunk_urls_def List.map_filter_simps)

lemma lookup_after_Nil [simp]: "lookup_after idx [] u before = before"
  by (auto simp add: lookup_after_def fun_eq_iff)

lemma lookup_after_Cons_None:
  "web chunk = None \<Longrightarrow>
   lookup_after (Suc idx) rest u before = lookup_after idx (chunk # rest) u before"
proof
  fix k
  assume w: "web chunk = None"
  show "lookup_after (Suc idx) rest u before k = lookup_after idx (chunk # rest) u before k"
  proof (cases "k = int idx")
    case True
    with w show ?thesis by (simp add: lookup_after_def)
  next
    case False
    have "int idx < k \<Longrightarrow> nat (k - int idx) = Suc (nat (k - int (Suc idx)))" by simp
    with False show ?thesis by (auto simp add: lookup_after_def)
  qed
qed

lemma lookup_after_Cons_Some:
  assumes "web chunk = Some w" and "map_of u (uri w) = Some short_id"
  shows "lookup_after (Suc idx) rest u (before(int idx \<mapsto> short_id)) =
         lookup_after idx (chunk # rest) u before"
proof
  fix k
  show "lookup_after (Suc idx) rest u (before(int idx \<mapsto> short_id)) k =
        lookup_after idx (chunk # rest) u before k"
  proof (cases "k = int idx")
    case True
    with assms show ?thesis by (simp add: lookup_after_def)
  next
    case False
    have "int idx < k \<Longrightarrow> nat (k - int idx) = Suc (nat (k - int (Suc idx)))" by simp
    with False show ?thesis by (auto simp add: lookup_after_def split: option.splits)
  qed
qed

lemma chunks_loop_inv:
  assumes "registry_inv u s"
  shows "\<exists>u2 s2 info'.
           chunks_loop idx chunks (u, s, Suc (length u), info) =
             (u @ u2, s @ s2, Suc (length (u @ u2)), info')
           \<and> registry_inv (u @ u2) (s @ s2)
           \<and> set (map fst (u @ u2)) = set (map fst u) \<union> set (chunk_urls chunks)
           \<and> map_of info' = lookup_after idx chunks (u @ u2) (map_of info)
           \<and> fresh_sources s2"
  using assms
proof (induction chunks arbitrary: idx u s info)
  case Nil
  then show ?case by (simp add: fresh_sources_def)
next
  case (Cons chunk rest)
  show ?case
  proof (cases "web chunk")
    case None
    from Cons.IH [OF Cons.prems, of "Suc idx" info]
    obtain u2 s2 info' where
      run: "chunks_loop (Suc idx) rest (u, s, Suc (length u), info) =
              (u @ u2, s @ s2, Suc (length (u @ u2)), info')"
      and inv: "registry_inv (u @ u2) (s @ s2)"
      and urls: "set (map fst (u @ u2)) = set (map fst u) \<union> set (chunk_urls rest)"
      and look: "map_of info' = lookup_after (Suc idx) rest (u @ u2) (map_of info)"
      and fresh: "fresh_sources s2"
      by blast
    have "chunks_loop idx (chunk # rest) (u, s, Suc (length u), info) =
            (u @ u2, s @ s2, Suc (length (u @ u2)), info')"
      using None run by simp
    moreover have "map_of info' = lookup_after idx (chunk # rest) (u @ u2) (map_of info)"
      using look lookup_after_Cons_None [OF None] by simp
    moreover have "set (map fst (u @ u2)) = set (map fst u) \<union> set (chunk_urls (chunk # rest))"
      using urls None by (simp add: chunk_urls_Cons)
    ultimately show ?thesis using inv fresh by blast
  next
    case (Some w)
    show ?thesis
    proof (cases "map_of u (uri w)")
      case known: (Some short_id)
      from Cons.IH [OF Cons.prems, of "Suc idx" "AList.update (int idx) short_id info"]
      obtain u2 s2 info' where
        run: "chunks_loop (Suc idx) rest (u, s, Suc (length u), AList.update (int idx) short_id info) =
                (u @ u2, s @ s2, Suc (length (u @ u2)), info')"
        and inv: "registry_inv (u @ u2) (s @ s2)"
        and urls: "set (map fst (u @ u2)) = set (map fst u) \<union> set (chunk_urls rest)"
        and look: "map_of info' =
             lookup_after (Suc idx) rest (u @ u2) (map_of (AList.update (int idx) short_id info))"
        and fresh: "fresh_sources s2"
        by blast
      have "chunks_loop idx (chunk # rest) (u, s, Suc (length u), info) =
              (u @ u2, s @ s2, Suc (length (u @ u2)), info')"
        using Some known run by simp
      moreover have "map_of info' = lookup_after idx (chunk # rest) (u @ u2) (map_of info)"
        using look lookup_after_Cons_Some [OF Some map_of_append_Some [OF known]]
        by (simp add: update_conv')
      moreover have "uri w \<in> set (map fst u)"
        using known by (force dest: map_of_SomeD)
      then have "set (map fst (u @ u2)) = set (map fst u) \<union> set (chunk_urls (chunk # rest))"
        using urls Some by (auto simp add: chunk_urls_Cons)
      ultimately show ?thesis using inv fresh by blast
    next
      case None
      let ?sid = "mint_short_id (Suc (length u))"
      let ?info = "\<lparr>src_short_id = Some ?sid,
                     src_title = Some (if title w \<noteq> domain w then title w else domain w),
                     src_url = Some (uri w), src_domain = Some (domain w),
                     supported_claims = Some []\<rparr>"
      let ?u1 = "u @ [(uri w, ?sid)]"
      let ?s1 = "s @ [(?sid, ?info)]"
      have inv1: "registry_inv ?u1 ?s1"
        using registry_inv_mint(3) [OF Cons.prems None, of ?info] by simp
      from Cons.IH [OF inv1, of "Suc idx" "AList.update (int idx) ?sid info"]
      obtain u2 s2 info' where
        run: "chunks_loop (Suc idx) rest (?u1, ?s1, Suc (length ?u1), AList.update (int idx) ?sid info) =
                (?u1 @ u2, ?s1 @ s2, Suc (length (?u1 @ u2)), info')"
        and inv: "registry_inv (?u1 @ u2) (?s1 @ s2)"
        and urls: "set (map fst (?u1 @ u2)) = set (map fst ?u1) \<union> set (chunk_urls rest)"
        and look: "map_of info' =
             lookup_after (Suc idx) rest (?u1 @ u2) (map_of (AList.update (int idx) ?sid info))"
        and fresh: "fresh_sources s2"
        by blast
      have step: "chunks_loop idx (chunk # rest) (u, s, Suc (length u), info) =
              chunks_loop (Suc idx) rest (?u1, ?s1, Suc (length ?u1), AList.update (int idx) ?sid info)"
        using Some None registry_inv_mint(1) [OF Cons.prems None]
          registry_inv_mint(2) [OF Cons.prems None, of ?info]
        by (simp add: Let_def)
      have known1: "map_of (?u1 @ u2) (uri w) = Some ?sid"
        using None by (simp add: map_of_append map_add_def)
      have "chunks_loop idx (chunk # rest) (u, s, Suc (length u), info) =
              (u @ ((uri w, ?sid) # u2), s @ ((?sid, ?info) # s2),
               Suc (length (u @ ((uri w, ?sid) # u2))), info')"
        using step run by simp
      moreover have "registry_inv (u @ ((uri w, ?sid) # u2)) (s @ ((?sid, ?info) # s2))"
        using inv by simp
      moreover have "set (map fst (u @ ((uri w, ?sid) # u2))) =
          set (map fst u) \<union> set (chunk_urls (chunk # rest))"
        using urls Some by (auto simp add: chunk_urls_Cons)
      moreover have "map_of info' =
          lookup_after idx (chunk # rest) (u @ ((uri w, ?sid) # u2)) (map_of info)"
        using look lookup_after_Cons_Some [OF Some known1] by (simp add: update_conv')
      moreover have "fresh_sources ((?sid, ?info) # s2)"
        using fresh by (simp add: fresh_sources_def)
      ultimately show ?thesis by blast
    qed
  qed
qed

lemma supports_loop_add_claims:
  assumes "distinct (map fst sources)"
    and "\<And>chunk_idx short_id. map_of chunks_info chunk_idx = Some short_id \<Longrightarrow> has_claims sources short_id"
  shows "supports_loop chunks_info supports sources =
         Inr (add_claims (event_claims (map_of chunks_info) supports) sources)"
  using assms
proof (induction supports arbitrary: sources)
  case Nil
  have "event_claims (map_of chunks_info) [] = (\<lambda>_. [])"
    by (simp add: event_claims_def fun_eq_iff)
  then show ?case by (simp add: add_claims_Nil)
next
  case (Cons support rest)
  let ?one = "support_claims (map_of chunks_info) support 0 (chunk_indices_of support)"
  have one: "indices_loop support chunks_info 0 (chunk_indices_of support) sources =
             Inr (add_claims ?one sources)"
    using Cons.prems by (intro indices_loop_add_claims) auto
  have "supports_loop chunks_info rest (add_claims ?one sources) =
        Inr (add_claims (event_claims (map_of chunks_info) rest) (add_claims ?one sources))"
    using Cons.prems by (intro Cons.IH) auto
  moreover have "(\<lambda>k. ?one k @ event_claims (map_of chunks_info) rest k) =
                 event_claims (map_of chunks_info) (support # rest)"
    by (simp add: event_claims_def fun_eq_iff)
  ultimately show ?case using one by (simp add: add_claims_add_claims)
qed

lemma list_all_add_claims:
  "list_all (\<lambda>(k, info). supported_claims info \<noteq> None) (add_claims new s) =
   list_all (\<lambda>(k, info). supported_claims info \<noteq> None) s"
  by (induction s) (auto simp add: add_claims_def)

lemma registry_inv_add_claims: "registry_inv u s \<Longrightarrow> registry_inv u (add_claims new s)"
  unfolding registry_inv_def by (simp only: add_claims_keys list_all_add_claims)

lemma add_claims_cong:
  "(\<And>k. k \<in> fst ` set a \<Longrightarrow> f k = g k) \<Longrightarrow> add_claims f a = add_claims g a"
  unfolding add_claims_def by (rule map_cong) force+

lemma add_claims_append_new:
  "fst ` set a \<inter> fst ` set b = {} \<Longrightarrow>
   add_claims f a @ b = add_claims (\<lambda>k. if k \<in> fst ` set a then f k else []) (a @ b)"
proof -
  assume disj: "fst ` set a \<inter> fst ` set b = {}"
  have "add_claims (\<lambda>k. if k \<in> fst ` set a then f k else []) a = add_claims f a"
    by (rule add_claims_cong) simp
  moreover have "add_claims (\<lambda>k. if k \<in> fst ` set a then f k else []) b = add_claims (\<lambda>_. []) b"
    using disj by (intro add_claims_cong) auto
  moreover have "add_claims (\<lambda>k. if k \<in> fst ` set a then f k else []) (a @ b) =
      add_claims (\<lambda>k. if k \<in> fst ` set a then f k else []) a @
      add_claims (\<lambda>k. if k \<in> fst ` set a then f k else []) b"
    by (simp add: add_claims_def)
  ultimately show ?thesis by (simp only: add_claims_Nil)
qed

lemma lookup_empty: "lookup_after 0 chunks u (map_of []) = chunk_short_id u chunks"
  by (auto simp add: lookup_after_def chunk_short_id_def fun_eq_iff)

lemma chunk_short_id_Nil: "chunk_short_id u [] = (\<lambda>_. None)"
  by (rule ext) (auto simp add: chunk_short_id_def)

lemma event_claims_no_lookup: "event_claims (\<lambda>_. None) supports = (\<lambda>_. [])"
  by (simp add: event_claims_def support_claims_def fun_eq_iff)

text \<open>One event of the loop over the session events.\<close>

lemma event_step:
  assumes "registry_inv u s"
  shows "\<exists>u2 s2.
           events_loop (event # rest) (u, s, Suc (length u)) =
             events_loop rest
               (u @ u2,
                add_claims (event_claims (chunk_short_id (u @ u2) (event_chunks event))
                  (event_supports event)) (s @ s2),
                Suc (length (u @ u2)))
           \<and> registry_inv (u @ u2) (s @ s2)
           \<and> set (map fst (u @ u2)) = set (map fst u) \<union> set (chunk_urls (event_chunks event))
           \<and> fresh_sources s2"
proof (cases "event_chunks event = []")
  case True
  have "add_claims (event_claims (chunk_short_id u (event_chunks event)) (event_supports event)) s = s"
    using True by (simp add: chunk_short_id_Nil event_claims_no_lookup add_claims_Nil)
  then have "events_loop (event # rest) (u, s, Suc (length u)) =
             events_loop rest
               (u @ [],
                add_claims (event_claims (chunk_short_id (u @ []) (event_chunks event))
                  (event_supports event)) (s @ []),
                Suc (length (u @ [])))
           \<and> registry_inv (u @ []) (s @ [])
           \<and> set (map fst (u @ [])) = set (map fst u) \<union> set (chunk_urls (event_chunks event))
           \<and> fresh_sources []"
    using True assms by (simp add: fresh_sources_def)
  then show ?thesis by blast
next
  case False
  from chunks_loop_inv [OF assms, of 0 "event_chunks event" "[]"]
  obtain u2 s2 info' where
    run: "chunks_loop 0 (event_chunks event) (u, s, Suc (length u), []) =
            (u @ u2, s @ s2, Suc (length (u @ u2)), info')"
    and inv: "registry_inv (u @ u2) (s @ s2)"
    and urls: "set (map fst (u @ u2)) = set (map fst u) \<union> set (chunk_urls (event_chunks event))"
    and look: "map_of info' = lookup_after 0 (event_chunks event) (u @ u2) (map_of [])"
    and fresh: "fresh_sources s2"
    by blast
  have look': "map_of info' = chunk_short_id (u @ u2) (event_chunks event)"
    using look by (simp only: lookup_empty)
  have has: "\<And>k sid. map_of info' k = Some sid \<Longrightarrow> has_claims (s @ s2) sid"
  proof -
    fix k sid assume "map_of info' k = Some sid"
    then have "chunk_short_id (u @ u2) (event_chunks event) k = Some sid" using look' by simp
    then obtain url where "map_of (u @ u2) url = Some sid"
      by (auto simp add: chunk_short_id_def split: if_splits option.splits)
    then show "has_claims (s @ s2) sid" using registry_inv_has_claims [OF inv] by blast
  qed
  have "supports_loop info' (event_supports event) (s @ s2) =
        Inr (add_claims (event_claims (map_of info') (event_supports event)) (s @ s2))"
    using registry_inv_distinct_ids [OF inv] has by (intro supports_loop_add_claims) auto
  then have "events_loop (event # rest) (u, s, Suc (length u)) =
             events_loop rest
               (u @ u2,
                add_claims (event_claims (chunk_short_id (u @ u2) (event_chunks event))
                  (event_supports event)) (s @ s2),
                Suc (length (u @ u2)))"
    using False run look' by simp
  then show ?thesis using inv urls fresh by blast
qed

lemma batch_urls_Cons:
  "batch_urls (event # rest) = chunk_urls (event_chunks event) @ batch_urls rest"
  by (simp add: batch_urls_def)

lemma batch_claims_Cons:
  "batch_claims u (event # rest) k =
     event_claims (chunk_short_id u (event_chunks event)) (event_supports event) k @
     batch_claims u rest k"
  by (simp add: batch_claims_def)

lemma batch_claims_Nil: "batch_claims u [] = (\<lambda>_. [])"
  by (simp add: batch_claims_def fun_eq_iff)

lemma set_chunk_urls:
  "set (chunk_urls chunks) = {uri w |w chunk. chunk \<in> set chunks \<and> web chunk = Some w}"
  by (induction chunks) (auto simp add: chunk_urls_Cons split: option.splits)

lemma chunk_short_id_append:
  assumes "set (chunk_urls chunks) \<subseteq> set (map fst u)"
  shows "chunk_short_id (u @ u3) chunks = chunk_short_id u chunks"
proof
  fix k
  show "chunk_short_id (u @ u3) chunks k = chunk_short_id u chunks k"
  proof (cases "0 \<le> k \<and> k < int (length chunks)")
    case False
    then show ?thesis by (auto simp add: chunk_short_id_def)
  next
    case True
    then have "nat k < length chunks" by linarith
    then have mem: "chunks ! nat k \<in> set chunks" by (rule nth_mem)
    show ?thesis
    proof (cases "web (chunks ! nat k)")
      case None
      with True show ?thesis by (simp add: chunk_short_id_def)
    next
      case (Some w)
      then have "uri w \<in> set (chunk_urls chunks)"
        using mem by (auto simp add: set_chunk_urls)
      then have "uri w \<in> fst ` set u" using assms by auto
      then obtain v where "map_of u (uri w) = Some v"
        by (metis map_of_eq_None_iff not_Some_eq)
      then show ?thesis using True Some by (simp add: chunk_short_id_def map_of_append)
    qed
  qed
qed

lemma event_claims_unmapped:
  assumes "\<And>idx. lookup idx \<noteq> Some k"
  shows "event_claims lookup supports k = []"
  using assms by (simp add: event_claims_def support_claims_def)

lemma chunk_short_id_range:
  "chunk_short_id u chunks idx = Some k \<Longrightarrow> k \<in> snd ` set u"
  by (auto simp add: chunk_short_id_def split: if_splits option.splits dest!: map_of_SomeD)
    (metis snd_conv image_eqI)

lemma registry_inv_drop_claims:
  "registry_inv U (add_claims c S @ T) \<Longrightarrow> registry_inv U (S @ T)"
  unfolding registry_inv_def
  by (simp only: map_append add_claims_keys list_all_append list_all_add_claims)

lemma events_loop_char:
  assumes "registry_inv u s"
  shows "\<exists>u2 s2.
           events_loop session_events (u, s, Suc (length u)) =
             Inr (u @ u2, add_claims (batch_claims (u @ u2) session_events) (s @ s2),
                  Suc (length (u @ u2)))
           \<and> registry_inv (u @ u2) (s @ s2)
           \<and> set (map fst (u @ u2)) = set (map fst u) \<union> set (batch_urls session_events)
           \<and> fresh_sources s2"
  using assms
proof (induction session_events arbitrary: u s)
  case Nil
  have "events_loop [] (u, s, Suc (length u)) =
          Inr (u @ [], add_claims (batch_claims (u @ []) []) (s @ []), Suc (length (u @ [])))
        \<and> registry_inv (u @ []) (s @ [])
        \<and> set (map fst (u @ [])) = set (map fst u) \<union> set (batch_urls [])
        \<and> fresh_sources []"
    using Nil by (simp add: batch_claims_Nil add_claims_Nil batch_urls_def fresh_sources_def)
  then show ?case by blast
next
  case (Cons event rest)
  let ?chunks = "event_chunks event"
  from event_step [OF Cons.prems, of event rest]
  obtain u2 s2 where
    step: "events_loop (event # rest) (u, s, Suc (length u)) =
             events_loop rest
               (u @ u2,
                add_claims (event_claims (chunk_short_id (u @ u2) ?chunks) (event_supports event))
                  (s @ s2),
                Suc (length (u @ u2)))"
    and inv1: "registry_inv (u @ u2) (s @ s2)"
    and urls1: "set (map fst (u @ u2)) = set (map fst u) \<union> set (chunk_urls ?chunks)"
    and fresh1: "fresh_sources s2"
    by blast
  let ?U1 = "u @ u2" and ?S1 = "s @ s2"
  let ?c1 = "event_claims (chunk_short_id ?U1 ?chunks) (event_supports event)"
  have inv1': "registry_inv ?U1 (add_claims ?c1 ?S1)"
    using inv1 by (rule registry_inv_add_claims)
  from Cons.IH [OF inv1']
  obtain u3 s3 where
    run: "events_loop rest (?U1, add_claims ?c1 ?S1, Suc (length ?U1)) =
            Inr (?U1 @ u3, add_claims (batch_claims (?U1 @ u3) rest) (add_claims ?c1 ?S1 @ s3),
                 Suc (length (?U1 @ u3)))"
    and inv2: "registry_inv (?U1 @ u3) (add_claims ?c1 ?S1 @ s3)"
    and urls2: "set (map fst (?U1 @ u3)) = set (map fst ?U1) \<union> set (batch_urls rest)"
    and fresh2: "fresh_sources s3"
    by blast
  have inv3: "registry_inv (?U1 @ u3) (?S1 @ s3)"
    using inv2 by (rule registry_inv_drop_claims)
  have disj: "fst ` set ?S1 \<inter> fst ` set s3 = {}"
    using registry_inv_distinct_ids [OF inv3] by auto
  have keys1: "fst ` set ?S1 = snd ` set ?U1"
  proof -
    have "set (map fst ?S1) = set (map snd ?U1)"
      using inv1 unfolding registry_inv_def by metis
    then show ?thesis by (simp only: set_map)
  qed
  have same_lookup: "chunk_short_id (?U1 @ u3) ?chunks = chunk_short_id ?U1 ?chunks"
    using urls1 by (intro chunk_short_id_append) auto
  have "add_claims (batch_claims (?U1 @ u3) rest) (add_claims ?c1 ?S1 @ s3) =
        add_claims (batch_claims (?U1 @ u3) rest)
          (add_claims (\<lambda>k. if k \<in> fst ` set ?S1 then ?c1 k else []) (?S1 @ s3))"
    using add_claims_append_new [OF disj] by simp
  also have "\<dots> = add_claims (\<lambda>k. (if k \<in> fst ` set ?S1 then ?c1 k else []) @
                        batch_claims (?U1 @ u3) rest k) (?S1 @ s3)"
    by (rule add_claims_add_claims)
  also have "\<dots> = add_claims (batch_claims (?U1 @ u3) (event # rest)) (?S1 @ s3)"
  proof (rule add_claims_cong)
    fix k
    have "k \<notin> fst ` set ?S1 \<Longrightarrow> ?c1 k = []"
    proof (rule event_claims_unmapped)
      fix idx assume "k \<notin> fst ` set ?S1"
      then show "chunk_short_id ?U1 ?chunks idx \<noteq> Some k"
        using chunk_short_id_range [of ?U1 ?chunks idx k] keys1 by auto
    qed
    then show "(if k \<in> fst ` set ?S1 then ?c1 k else []) @ batch_claims (?U1 @ u3) rest k =
               batch_claims (?U1 @ u3) (event # rest) k"
      unfolding batch_claims_Cons same_lookup by simp
  qed
  finally have sources_eq:
    "add_claims (batch_claims (?U1 @ u3) rest) (add_claims ?c1 ?S1 @ s3) =
     add_claims (batch_claims (?U1 @ u3) (event # rest)) (?S1 @ s3)" .
  have "events_loop (event # rest) (u, s, Suc (length u)) =
          Inr (u @ (u2 @ u3), add_claims (batch_claims (u @ (u2 @ u3)) (event # rest)) (s @ (s2 @ s3)),
               Suc (length (u @ (u2 @ u3))))"
    using step run sources_eq by simp
  moreover have "registry_inv (u @ (u2 @ u3)) (s @ (s2 @ s3))"
    using inv3 by simp
  moreover have "set (map fst (u @ (u2 @ u3))) = set (map fst u) \<union> set (batch_urls (event # rest))"
    using urls1 urls2 by (auto simp add: batch_urls_Cons)
  moreover have "fresh_sources (s2 @ s3)"
    using fresh1 fresh2 by (simp add: fresh_sources_def)
  ultimately show ?case by blast
qed

lemma str_nat_digit: "n < 10 \<Longrightarrow> str_nat n = [digit_char n]"
  by (subst str_nat.simps) simp

lemma empty_ok: "registry_ok empty_state"
  by (simp add: registry_ok_def registry_inv_def empty_state_def get_url_to_short_id_def get_sources_def)

lemma callback_char:
  assumes "registry_ok st"
  shows "\<exists>u2 s2.
           collect_research_sources_callback batch st =
             Inr (st\<lparr>st_url_to_short_id := Some (get_url_to_short_id st @ u2),
                     st_sources := Some (add_claims (batch_claims (get_url_to_short_id st @ u2) batch)
                                     (get_sources st @ s2))\<rparr>)
           \<and> registry_inv (get_url_to_short_id st @ u2) (get_sources st @ s2)
           \<and> set (map fst (get_url_to_short_id st @ u2)) =
               set (map fst (get_url_to_short_id st)) \<union> set (batch_urls batch)
           \<and> fresh_sources s2"
proof -
  from events_loop_char [OF assms [unfolded registry_ok_def], of batch]
  obtain u2 s2 where
    run: "events_loop batch (get_url_to_short_id st, get_sources st, Suc (length (get_url_to_short_id st))) =
            Inr (get_url_to_short_id st @ u2,
                 add_claims (batch_claims (get_url_to_short_id st @ u2) batch) (get_sources st @ s2),
                 Suc (length (get_url_to_short_id st @ u2)))"
    and inv: "registry_inv (get_url_to_short_id st @ u2) (get_sources st @ s2)"
    and urls: "set (map fst (get_url_to_short_id st @ u2)) =
               set (map fst (get_url_to_short_id st)) \<union> set (batch_urls batch)"
    and fresh: "fresh_sources s2"
    by blast
  have "collect_research_sources_callback batch st =
          Inr (st\<lparr>st_url_to_short_id := Some (get_url_to_short_id st @ u2),
                  st_sources := Some (add_claims (batch_claims (get_url_to_short_id st @ u2) batch)
                                  (get_sources st @ s2))\<rparr>)"
    using run by (simp add: collect_research_sources_callback_def Let_def)
  then show ?thesis using inv urls fresh by blast
qed

lemma callback_ok:
  assumes "registry_ok st"
  shows "\<exists>st'. collect_research_sources_callback batch st = Inr st'
           \<and> registry_ok st'
           \<and> set (map fst (get_url_to_short_id st')) =
               set (map fst (get_url_to_short_id st)) \<union> set (batch_urls batch)"
proof -
  from callback_char [OF assms, of batch]
  obtain u2 s2 where
    run: "collect_research_sources_callback batch st =
             Inr (st\<lparr>st_url_to_short_id := Some (get_url_to_short_id st @ u2),
                     st_sources := Some (add_claims (batch_claims (get_url_to_short_id st @ u2) batch)
                                     (get_sources st @ s2))\<rparr>)"
    and inv: "registry_inv (get_url_to_short_id st @ u2) (get_sources st @ s2)"
    and urls: "set (map fst (get_url_to_short_id st @ u2)) =
               set (map fst (get_url_to_short_id st)) \<union> set (batch_urls batch)"
    by blast
  let ?st' = "st\<lparr>st_url_to_short_id := Some (get_url_to_short_id st @ u2),
                     st_sources := Some (add_claims (batch_claims (get_url_to_short_id st @ u2) batch)
                                     (get_sources st @ s2))\<rparr>"
  have "registry_ok ?st'"
    using registry_inv_add_claims [OF inv]
    by (simp add: registry_ok_def get_url_to_short_id_def get_sources_def)
  moreover have "set (map fst (get_url_to_short_id ?st')) =
               set (map fst (get_url_to_short_id st)) \<union> set (batch_urls batch)"
    using urls by (simp add: get_url_to_short_id_def)
  ultimately show ?thesis using run by blast
qed

lemma record_calls_ok:
  assumes "registry_ok st"
  shows "\<exists>st'. record_calls batches st = Inr st'
           \<and> registry_ok st'
           \<and> set (map fst (get_url_to_short_id st')) =
               set (map fst (get_url_to_short_id st)) \<union> set (concat (map batch_urls batches))"
  using assms
proof (induction batches arbitrary: st)
  case Nil
  then show ?case by simp
next
  case (Cons batch rest)
  from callback_ok [OF Cons.prems, of batch]
  obtain st1 where run1: "collect_research_sources_callback batch st = Inr st1"
    and ok1: "registry_ok st1"
    and urls1: "set (map fst (get_url_to_short_id st1)) =
               set (map fst (get_url_to_short_id st)) \<union> set (batch_urls batch)"
    by blast
  from Cons.IH [OF ok1]
  obtain st' where run: "record_calls rest st1 = Inr st'"
    and ok: "registry_ok st'"
    and urls: "set (map fst (get_url_to_short_id st')) =
               set (map fst (get_url_to_short_id st1)) \<union> set (concat (map batch_urls rest))"
    by blast
  have "record_calls (batch # rest) st = Inr st'" using run1 run by simp
  moreover have "set (map fst (get_url_to_short_id st')) =
               set (map fst (get_url_to_short_id st)) \<union> set (concat (map batch_urls (batch # rest)))"
    using urls1 urls by auto
  ultimately show ?case using ok by blast
qed

subsection \<open>Claims about the registry\<close>

lemmas eval_registry =
  collect_research_sources_callback_def get_url_to_short_id_def get_sources_def empty_state_def
  event_chunks_def event_supports_def Let_def mint_short_id_def str_nat_digit digit_char_def
  append_claim_def chunk_indices_of_def claim_of_def

lemma example_once:
  "collect_research_sources_callback [example_event] empty_state = Inr registry_once"
  by (simp add: eval_registry example_event_def registry_once_def example_source_def)

lemma example_twice:
  "collect_research_sources_callback [example_event] registry_once = Inr registry_twice"
  by (simp add: eval_registry example_event_def registry_once_def registry_twice_def
      example_source_def)

text \<open>
  C2. After any sequence of calls of the callback on a fresh state, no call raises and
  in the resulting registry: the URL map has distinct keys, and they are exactly the
  URLs of the web chunks recorded; the number of entries is the number of distinct
  URLs; the short ids, in insertion order, are \<^verbatim>\<open>src-1\<close>, ..., \<^verbatim>\<open>src-n\<close>, all distinct;
  the keys of the sources are these short ids, in the same order; and a chunk loop
  entered with the counter at \<^verbatim>\<open>len(url_to_short_id) + 1\<close> leaves it at
  \<^verbatim>\<open>len(url_to_short_id) + 1\<close> after any number of chunks, so the counter has that
  value whenever an id is minted.
\<close>

theorem registry_invariant:
  "\<exists>st. record_calls batches empty_state = Inr st
     \<and> distinct (map fst (get_url_to_short_id st))
     \<and> set (map fst (get_url_to_short_id st)) = set (concat (map batch_urls batches))
     \<and> length (get_url_to_short_id st) = card (set (concat (map batch_urls batches)))
     \<and> map snd (get_url_to_short_id st) =
         map (\<lambda>i. mint_short_id (i + 1)) [0..<length (get_url_to_short_id st)]
     \<and> distinct (map snd (get_url_to_short_id st))
     \<and> map fst (get_sources st) = map snd (get_url_to_short_id st)
     \<and> (\<forall>idx chunks info. \<exists>u' s' info'.
           chunks_loop idx chunks
             (get_url_to_short_id st, get_sources st, length (get_url_to_short_id st) + 1, info) =
           (u', s', length u' + 1, info'))"
proof -
  from record_calls_ok [OF empty_ok, of batches]
  obtain st where run: "record_calls batches empty_state = Inr st"
    and ok: "registry_ok st"
    and urls: "set (map fst (get_url_to_short_id st)) =
               set (map fst (get_url_to_short_id empty_state)) \<union> set (concat (map batch_urls batches))"
    by blast
  let ?u = "get_url_to_short_id st" and ?s = "get_sources st"
  have inv: "registry_inv ?u ?s" using ok by (simp add: registry_ok_def)
  have d: "distinct (map fst ?u)" using inv by (simp add: registry_inv_def)
  have urls': "set (map fst ?u) = set (concat (map batch_urls batches))"
    using urls by (simp add: get_url_to_short_id_def empty_state_def)
  have "length ?u = card (set (map fst ?u))"
    using distinct_card [OF d] by simp
  then have n: "length ?u = card (set (concat (map batch_urls batches)))"
    using urls' by simp
  have ids: "map snd ?u = map (\<lambda>i. mint_short_id (i + 1)) [0..<length ?u]"
    using inv by (simp add: registry_inv_def)
  have keys: "map fst ?s = map snd ?u" using inv unfolding registry_inv_def by blast
  have counter: "\<forall>idx chunks info. \<exists>u' s' info'.
           chunks_loop idx chunks (?u, ?s, length ?u + 1, info) = (u', s', length u' + 1, info')"
  proof (intro allI)
    fix idx chunks info
    from chunks_loop_inv [OF inv, of idx chunks info]
    show "\<exists>u' s' info'. chunks_loop idx chunks (?u, ?s, length ?u + 1, info) = (u', s', length u' + 1, info')"
      by auto
  qed
  show ?thesis
    using run d urls' n ids registry_inv_distinct_ids [OF inv] keys counter by blast
qed

theorem registry_invariant_witness:
  "\<exists>st. record_calls [[short_scores_event], [overlapping_event, short_scores_event]] empty_state
           = Inr st
     \<and> get_url_to_short_id st =
         [(PyStr ''http://a'', ''src-1''), (PyStr ''http://b'', ''src-2''),
          (PyStr ''http://c'', ''src-3'')]
     \<and> map fst (get_sources st) = map snd (get_url_to_short_id st)
     \<and> length (get_url_to_short_id st) =
         card (set (concat (map batch_urls
           [[short_scores_event], [overlapping_event, short_scores_event]])))"
proof -
  let ?calls = "[[short_scores_event], [overlapping_event, short_scores_event]]"
  from registry_invariant [of ?calls]
  obtain st where run: "record_calls ?calls empty_state = Inr st"
    and n: "length (get_url_to_short_id st) = card (set (concat (map batch_urls ?calls)))"
    and keys: "map fst (get_sources st) = map snd (get_url_to_short_id st)"
    by blast
  have "\<exists>st'. record_calls ?calls empty_state = Inr st'
          \<and> get_url_to_short_id st' =
              [(PyStr ''http://a'', ''src-1''), (PyStr ''http://b'', ''src-2''),
          (PyStr ''http://c'', ''src-3'')]"
    by (simp add: eval_registry short_scores_event_def overlapping_event_def)
  then have "get_url_to_short_id st =
      [(PyStr ''http://a'', ''src-1''), (PyStr ''http://b'', ''src-2''),
          (PyStr ''http://c'', ''src-3'')]"
    using run by auto
  then show ?thesis using run n keys by blast
qed

text \<open>
  C4, as amended. Let a batch have been processed by one call on a registry that
  satisfies the invariant. A second call with the same batch does not raise, leaves the
  URL map as it is (so no short id is added), keeps the keys of the sources and their
  order (no source is duplicated), and changes a source only in its claims: it appends
  to every source the claims of the batch for that source once more, the same list the
  first call appended. Claims are not compared with the ones already recorded.
\<close>

theorem repeated_record_appends_again:
  assumes "registry_ok st0"
    and "collect_research_sources_callback batch st0 = Inr st1"
  shows "\<exists>st2 new_sources.
           collect_research_sources_callback batch st1 = Inr st2
           \<and> get_url_to_short_id st2 = get_url_to_short_id st1
           \<and> map fst (get_sources st2) = map fst (get_sources st1)
           \<and> distinct (map fst (get_sources st2))
           \<and> fresh_sources new_sources
           \<and> get_sources st1 =
               add_claims (batch_claims (get_url_to_short_id st1) batch)
                 (get_sources st0 @ new_sources)
           \<and> get_sources st2 =
               add_claims (batch_claims (get_url_to_short_id st1) batch) (get_sources st1)"
proof -
  let ?u0 = "get_url_to_short_id st0" and ?s0 = "get_sources st0"
  from callback_char [OF assms(1), of batch] assms(2)
  obtain u2 s2 where
    st1: "st1 = st0\<lparr>st_url_to_short_id := Some (?u0 @ u2),
                 st_sources := Some (add_claims (batch_claims (?u0 @ u2) batch) (?s0 @ s2))\<rparr>"
    and inv: "registry_inv (?u0 @ u2) (?s0 @ s2)"
    and urls: "set (map fst (?u0 @ u2)) = set (map fst ?u0) \<union> set (batch_urls batch)"
    and fresh: "fresh_sources s2"
    by auto
  let ?u1 = "get_url_to_short_id st1" and ?s1 = "get_sources st1"
  have u1: "?u1 = ?u0 @ u2" and s1: "?s1 = add_claims (batch_claims ?u1 batch) (?s0 @ s2)"
    using st1 by (simp_all add: get_url_to_short_id_def get_sources_def)
  have inv1: "registry_inv ?u1 ?s1"
    using registry_inv_add_claims [OF inv] u1 s1 by simp
  then have ok1: "registry_ok st1" by (simp add: registry_ok_def)
  from callback_char [OF ok1, of batch]
  obtain u3 s3 where
    run2: "collect_research_sources_callback batch st1 =
             Inr (st1\<lparr>st_url_to_short_id := Some (?u1 @ u3),
                      st_sources := Some (add_claims (batch_claims (?u1 @ u3) batch) (?s1 @ s3))\<rparr>)"
    and inv2: "registry_inv (?u1 @ u3) (?s1 @ s3)"
    and urls2: "set (map fst (?u1 @ u3)) = set (map fst ?u1) \<union> set (batch_urls batch)"
    by blast
  have "set (map fst (?u1 @ u3)) = set (map fst ?u1)"
    using urls2 urls u1 by auto
  moreover have "distinct (map fst (?u1 @ u3))"
    using inv2 by (simp add: registry_inv_def)
  ultimately have u3: "u3 = []"
    by (cases u3) auto
  have "length (?s1 @ s3) = length (?u1 @ u3)"
    using inv2 unfolding registry_inv_def by (metis length_map)
  moreover have "length ?s1 = length ?u1"
    using inv1 unfolding registry_inv_def by (metis length_map)
  ultimately have s3: "s3 = []" using u3 by simp
  let ?st2 = "st1\<lparr>st_url_to_short_id := Some ?u1,
                  st_sources := Some (add_claims (batch_claims ?u1 batch) ?s1)\<rparr>"
  have "collect_research_sources_callback batch st1 = Inr ?st2"
    using run2 u3 s3 by simp
  moreover have "get_url_to_short_id ?st2 = ?u1"
    by (simp add: get_url_to_short_id_def)
  moreover have s2_eq: "get_sources ?st2 = add_claims (batch_claims ?u1 batch) ?s1"
    by (simp add: get_sources_def)
  moreover have "map fst (get_sources ?st2) = map fst ?s1"
    by (simp only: s2_eq add_claims_keys)
  moreover have "distinct (map fst (get_sources ?st2))"
    using registry_inv_distinct_ids [OF inv1] by (simp only: s2_eq add_claims_keys)
  ultimately show ?thesis using s1 fresh by blast
qed

theorem repeated_record_appends_again_witness:
  "registry_ok empty_state
   \<and> collect_research_sources_callback [example_event] empty_state = Inr registry_once
   \<and> collect_research_sources_callback [example_event] registry_once = Inr registry_twice
   \<and> get_url_to_short_id registry_twice = get_url_to_short_id registry_once
   \<and> map fst (get_sources registry_twice) = map fst (get_sources registry_once)
   \<and> get_sources registry_twice =
       add_claims (batch_claims (get_url_to_short_id registry_once) [example_event])
         (get_sources registry_once)"
proof -
  from repeated_record_appends_again [OF empty_ok example_once]
  obtain st2 where run: "collect_research_sources_callback [example_event] registry_once = Inr st2"
    and u: "get_url_to_short_id st2 = get_url_to_short_id registry_once"
    and k: "map fst (get_sources st2) = map fst (get_sources registry_once)"
    and s: "get_sources st2 =
              add_claims (batch_claims (get_url_to_short_id registry_once) [example_event])
                (get_sources registry_once)"
    by blast
  from run example_twice have "st2 = registry_twice" by simp
  then show ?thesis using empty_ok example_once example_twice u k s by simp
qed

text \<open>
  The claim C4 as stated fails: the second call with the same batch brings no new
  support, yet the source \<^verbatim>\<open>src-1\<close> is not left unchanged. Its list of claims has
  one entry after the first call and the same entry twice after the second.
\<close>

theorem repeated_record_duplicates_claim:
  "collect_research_sources_callback [example_event] empty_state = Inr registry_once
   \<and> collect_research_sources_callback [example_event] registry_once = Inr registry_twice
   \<and> map_of (get_sources registry_once) ''src-1'' =
       Some (example_source [\<lparr>text_segment = PyStr ''fact'', confidence = 0.9\<rparr>])
   \<and> map_of (get_sources registry_twice) ''src-1'' =
       Some (example_source [\<lparr>text_segment = PyStr ''fact'', confidence = 0.9\<rparr>,
                             \<lparr>text_segment = PyStr ''fact'', confidence = 0.9\<rparr>])
   \<and> map_of (get_sources registry_twice) ''src-1'' \<noteq> map_of (get_sources registry_once) ''src-1''"
  by (simp add: example_once example_twice)
    (simp add: registry_once_def registry_twice_def get_sources_def example_source_def)

text \<open>
  C8, as amended. A call of the callback on a registry that satisfies the invariant
  does not raise and appends to every source exactly the claims the supports of the
  events contribute to it (\<open>batch_claims\<close>): for each support, one claim for each
  position \<open>i\<close> of its chunk indices whose index the local mapping of the event sends
  to the source, with the \<open>i\<close>-th confidence score, or 0.5 when the scores are absent
  or end before \<open>i\<close>, and with the text of the segment as the segment holds it, or
  the empty string when the support has no segment. Sources created by the call start
  without claims.
\<close>

theorem record_appends_support_claims:
  assumes "registry_ok st"
  shows "\<exists>st' new_sources.
           collect_research_sources_callback session_events st = Inr st'
           \<and> fresh_sources new_sources
           \<and> get_sources st' =
               add_claims (batch_claims (get_url_to_short_id st') session_events)
                 (get_sources st @ new_sources)"
proof -
  from callback_char [OF assms, of session_events]
  obtain u2 s2 where
    run: "collect_research_sources_callback session_events st =
            Inr (st\<lparr>st_url_to_short_id := Some (get_url_to_short_id st @ u2),
                    st_sources := Some (add_claims
                      (batch_claims (get_url_to_short_id st @ u2) session_events)
                      (get_sources st @ s2))\<rparr>)"
    and fresh: "fresh_sources s2"
    by blast
  let ?st' = "st\<lparr>st_url_to_short_id := Some (get_url_to_short_id st @ u2),
                    st_sources := Some (add_claims
                      (batch_claims (get_url_to_short_id st @ u2) session_events)
                      (get_sources st @ s2))\<rparr>"
  have "get_sources ?st' =
          add_claims (batch_claims (get_url_to_short_id ?st') session_events) (get_sources st @ s2)"
    by (simp add: get_sources_def get_url_to_short_id_def)
  then show ?thesis using run fresh by blast
qed

theorem record_appends_support_claims_witness:
  "\<exists>st' new_sources.
     collect_research_sources_callback [short_scores_event] empty_state = Inr st'
     \<and> fresh_sources new_sources
     \<and> get_sources st' =
         add_claims (batch_claims (get_url_to_short_id st') [short_scores_event])
           (get_sources empty_state @ new_sources)
     \<and> map (\<lambda>(k, info). (k, supported_claims info)) (get_sources st') =
         [(''src-1'', Some [\<lparr>text_segment = PyStr [], confidence = 0.9\<rparr>]),
          (''src-2'', Some [\<lparr>text_segment = PyStr [], confidence = 0.5\<rparr>])]"
proof -
  from record_appends_support_claims [OF empty_ok, of "[short_scores_event]"]
  obtain st' new_sources where
    run: "collect_research_sources_callback [short_scores_event] empty_state = Inr st'"
    and fresh: "fresh_sources new_sources"
    and s: "get_sources st' =
              add_claims (batch_claims (get_url_to_short_id st') [short_scores_event])
                (get_sources empty_state @ new_sources)"
    by blast
  have "\<exists>st''. collect_research_sources_callback [short_scores_event] empty_state = Inr st''
      \<and> map (\<lambda>(k, info). (k, supported_claims info)) (get_sources st'') =
         [(''src-1'', Some [\<lparr>text_segment = PyStr [], confidence = 0.9\<rparr>]),
          (''src-2'', Some [\<lparr>text_segment = PyStr [], confidence = 0.5\<rparr>])]"
    by (simp add: eval_registry short_scores_event_def)
  with run have "map (\<lambda>(k, info). (k, supported_claims info)) (get_sources st') =
         [(''src-1'', Some [\<lparr>text_segment = PyStr [], confidence = 0.9\<rparr>]),
          (''src-2'', Some [\<lparr>text_segment = PyStr [], confidence = 0.5\<rparr>])]"
    by auto
  with run fresh s have
    "collect_research_sources_callback [short_scores_event] empty_state = Inr st'
     \<and> fresh_sources new_sources
     \<and> get_sources st' =
         add_claims (batch_claims (get_url_to_short_id st') [short_scores_event])
           (get_sources empty_state @ new_sources)
     \<and> map (\<lambda>(k, info). (k, supported_claims info)) (get_sources st') =
         [(''src-1'', Some [\<lparr>text_segment = PyStr [], confidence = 0.9\<rparr>]),
          (''src-2'', Some [\<lparr>text_segment = PyStr [], confidence = 0.5\<rparr>])]"
    by (intro conjI)
  then show ?thesis by (intro exI)
qed

text \<open>
  The claim C8 as stated fails in its last part for a support whose segment is
  present and holds no text: the claim recorded has \<^verbatim>\<open>None\<close> as its text segment,
  not the empty string.
\<close>

theorem null_segment_text_recorded:
  "collect_research_sources_callback [null_text_event] empty_state = Inr null_text_registry
   \<and> map_of (get_sources null_text_registry) ''src-1'' =
       Some (example_source [\<lparr>text_segment = PyNone, confidence = 0.9\<rparr>])
   \<and> claim_of \<lparr>segment = Some \<lparr>segment_text = PyNone\<rparr>, confidence_scores = Some [0.9],
                 grounding_chunk_indices = Some [0]\<rparr> 0 =
       \<lparr>text_segment = PyNone, confidence = 0.9\<rparr>
   \<and> text_segment \<lparr>text_segment = PyNone, confidence = 0.9\<rparr> \<noteq> PyStr []"
proof -
  have "collect_research_sources_callback [null_text_event] empty_state = Inr null_text_registry"
    by (simp add: eval_registry null_text_event_def null_text_registry_def example_source_def)
  moreover have "map_of (get_sources null_text_registry) ''src-1'' =
       Some (example_source [\<lparr>text_segment = PyNone, confidence = 0.9\<rparr>])"
    by (simp add: null_text_registry_def get_sources_def)
  moreover have "claim_of \<lparr>segment = Some \<lparr>segment_text = PyNone\<rparr>,
                 confidence_scores = Some [0.9], grounding_chunk_indices = Some [0]\<rparr> 0 =
       \<lparr>text_segment = PyNone, confidence = 0.9\<rparr>"
    by (simp add: claim_of_def)
  ultimately show ?thesis by simp
qed

section \<open>The citation rewriter\<close>

declare re_sub.simps [simp del]

lemmas eval_citation =
  process_report_def cite_sub_def spacing_sub_def re_sub.simps re_run.simps re_find_def
  re_match_def
  cite_pattern_def spacing_pattern_def tag_replacer_def source_truthy_def group1_template_def
  is_space_def is_digit_def is_quote_def is_punct_def
  cite_tag_def wire_layout_def quote_text_def marker_id_def tag_with_value_def attr_tag_def

text \<open>
  C3, as amended. On the draft \<^verbatim>\<open>Fee <cite source="src-1"/> , Bar.\<close> with a registry
  that holds \<^verbatim>\<open>src-1\<close> with title \<^verbatim>\<open>Example\<close> and URL \<^verbatim>\<open>http://x\<close>, the two
  substitutions return \<^verbatim>\<open>Fee  [Example](http://x), Bar.\<close> and log nothing: the comma is
  glued to the link, and two spaces stand between \<^verbatim>\<open>Fee\<close> and the link, the one of
  the draft and the one the replacement starts with. The callback stores and returns
  this text.
\<close>

theorem fee_report_rewritten:
  "fee_draft = ''Fee <cite source='' @ [CHR 0x22] @ ''src-1'' @ [CHR 0x22] @ ''/> , Bar.''
   \<and> process_report fee_registry fee_draft = Inr (''Fee  [Example](http://x), Bar.'', [])
   \<and> citation_replacement_callback
         (empty_state\<lparr>st_sources := Some fee_registry, st_final_cited_report := Some fee_draft\<rparr>) =
       Inr (empty_state\<lparr>st_sources := Some fee_registry,
                        st_final_cited_report := Some fee_draft,
                        st_final_report_with_citations := Some ''Fee  [Example](http://x), Bar.''\<rparr>,
            ''Fee  [Example](http://x), Bar.'', [])"
proof -
  have draft: "fee_draft = ''Fee <cite source='' @ [CHR 0x22] @ ''src-1'' @ [CHR 0x22] @ ''/> , Bar.''"
    by (simp add: fee_draft_def eval_citation)
  have run: "process_report fee_registry fee_draft = Inr (''Fee  [Example](http://x), Bar.'', [])"
    by (simp add: fee_draft_def fee_registry_def fee_source_def eval_citation)
  have "citation_replacement_callback
         (empty_state\<lparr>st_sources := Some fee_registry, st_final_cited_report := Some fee_draft\<rparr>) =
       Inr (empty_state\<lparr>st_sources := Some fee_registry,
                        st_final_cited_report := Some fee_draft,
                        st_final_report_with_citations := Some ''Fee  [Example](http://x), Bar.''\<rparr>,
            ''Fee  [Example](http://x), Bar.'', [])"
    by (simp add: citation_replacement_callback_def get_sources_def run empty_state_def)
  with draft run show ?thesis by simp
qed

text \<open>
  The claim C3 as stated fails: the text returned is not
  \<^verbatim>\<open>Fee [Example](http://x), Bar.\<close> with a single space after \<^verbatim>\<open>Fee\<close>.
\<close>

theorem fee_report_not_single_space:
  "map_sum id fst (process_report fee_registry fee_draft) \<noteq> Inr ''Fee [Example](http://x), Bar.''"
proof -
  have "process_report fee_registry fee_draft = Inr (''Fee  [Example](http://x), Bar.'', [])"
    by (simp add: fee_draft_def fee_registry_def fee_source_def eval_citation)
  then show ?thesis by simp
qed

subsection \<open>The matcher\<close>

text \<open>
  A character that every item of a pattern rejects ends the part of the text the
  matcher reads: what follows it has no influence on the match.
\<close>

lemma take_eq_length: "take (length l) s = l \<Longrightarrow> length l \<le> length s"
  by (metis length_take min.cobounded1)

lemma take_append_stop:
  assumes "c \<notin> set l"
  shows "take (length l) (a @ c # b) = l \<longleftrightarrow> take (length l) a = l"
proof (cases "length l \<le> length a")
  case True
  then show ?thesis by simp
next
  case False
  then have lt: "length a < length l" by simp
  have "take (length l) a \<noteq> l"
  proof
    assume "take (length l) a = l"
    then have "length (take (length l) a) = length l" by simp
    with lt show False by simp
  qed
  moreover have "take (length l) (a @ c # b) \<noteq> l"
  proof
    assume eq: "take (length l) (a @ c # b) = l"
    have "(take (length l) (a @ c # b)) ! length a = c"
      using lt by (simp add: nth_append)
    with eq have "l ! length a = c" by simp
    with lt have "c \<in> set l" by (metis nth_mem)
    with assms show False by simp
  qed
  ultimately show ?thesis by simp
qed

lemma re_run_stop:
  "list_all (item_rejects c) items \<Longrightarrow> re_run items pos (a @ c # b) = re_run items pos a"
proof (induction items pos a rule: re_run.induct)
  case (1 pos s)
  then show ?case by simp
next
  case (2 items pos s)
  then show ?case by simp
next
  case (3 l items pos s)
  then have c: "c \<notin> set l" and rest: "list_all (item_rejects c) items" by simp_all
  show ?case
  proof (cases "take (length l) s = l")
    case True
    then have "length l \<le> length s" by (rule take_eq_length)
    then have "drop (length l) (s @ c # b) = drop (length l) s @ c # b" by simp
    with True take_append_stop [OF c, of s b] "3.IH" [OF True rest] show ?thesis by simp
  next
    case False
    with take_append_stop [OF c, of s b] show ?thesis by simp
  qed
next
  case (4 p items pos s)
  then show ?case by (cases s) auto
next
  case (5 p items pos s)
  then show ?case by (cases s) (auto split: option.splits)
next
  case (6 p items pos s)
  then show ?case by (cases s) (auto split: option.splits)
next
  case (7 p items pos s)
  then show ?case by (cases s) auto
qed

lemma re_run_bounds:
  "re_run items pos s = Some (marks, e) \<Longrightarrow>
   pos \<le> e \<and> e \<le> pos + length s \<and> (\<forall>m \<in> set marks. m \<le> e)"
proof (induction items pos s arbitrary: marks e rule: re_run.induct)
  case (1 pos s)
  then show ?case by simp
next
  case (2 items pos s)
  from "2.prems" obtain ms where run: "re_run items pos s = Some (ms, e)" and m: "marks = pos # ms"
    by (auto split: option.splits)
  from "2.IH" [OF run] m show ?case by simp
next
  case (3 l items pos s)
  from "3.prems" have t: "take (length l) s = l"
    and run: "re_run items (pos + length l) (drop (length l) s) = Some (marks, e)"
    by (simp_all split: if_splits)
  have "length l \<le> length s" using t by (rule take_eq_length)
  with "3.IH" [OF t run] show ?case by simp
next
  case (4 p items pos s)
  from "4.prems" obtain c r where s: "s = c # r" and pc: "p c"
    and run: "re_run items (Suc pos) r = Some (marks, e)"
    by (cases s) (simp_all split: if_splits)
  from "4.IH" [OF s pc run] s show ?case by simp
next
  case (5 p items pos s)
  show ?case
  proof (cases s)
    case Nil
    with "5.prems" have "re_run items pos [] = Some (marks, e)" by simp
    from "5.IH"(1) [OF Nil this] Nil show ?thesis by simp
  next
    case (Cons c r)
    show ?thesis
    proof (cases "p c")
      case True
      show ?thesis
      proof (cases "re_run items (Suc pos) r")
        case None
        with "5.prems" Cons True have "re_run items pos s = Some (marks, e)" by simp
        from "5.IH"(3) [OF Cons True None this] show ?thesis .
      next
        case (Some m)
        with "5.prems" Cons True have "re_run items (Suc pos) r = Some (marks, e)" by simp
        from "5.IH"(2) [OF Cons True this] Cons show ?thesis by simp
      qed
    next
      case False
      with "5.prems" Cons have "re_run items pos s = Some (marks, e)" by simp
      from "5.IH"(4) [OF Cons False this] show ?thesis .
    qed
  qed
next
  case (6 p items pos s)
  show ?case
  proof (cases s)
    case Nil
    with "6.prems" have "re_run items pos [] = Some (marks, e)" by simp
    from "6.IH"(1) [OF Nil this] Nil show ?thesis by simp
  next
    case (Cons c r)
    show ?thesis
    proof (cases "p c")
      case True
      show ?thesis
      proof (cases "re_run (Star p # items) (Suc pos) r")
        case None
        with "6.prems" Cons True have "re_run items pos s = Some (marks, e)" by simp
        from "6.IH"(3) [OF Cons True None this] show ?thesis .
      next
        case (Some m)
        with "6.prems" Cons True have "re_run (Star p # items) (Suc pos) r = Some (marks, e)" by simp
        from "6.IH"(2) [OF Cons True this] Cons show ?thesis by simp
      qed
    next
      case False
      with "6.prems" Cons have "re_run items pos s = Some (marks, e)" by simp
      from "6.IH"(4) [OF Cons False this] show ?thesis .
    qed
  qed
next
  case (7 p items pos s)
  from "7.prems" obtain c r where s: "s = c # r" and pc: "p c"
    and run: "re_run (Star p # items) (Suc pos) r = Some (marks, e)"
    by (cases s) (simp_all split: if_splits)
  from "7.IH" [OF s pc run] s show ?case by simp
qed

subsection \<open>Substitution, piece by piece\<close>

text \<open>
  The citation pattern starts with \<^verbatim>\<open><\<close> and cannot consume another one, so a match
  never runs across a \<^verbatim>\<open><\<close>: the substitution can be taken apart at every
  \<^verbatim>\<open><\<close>, and text without \<^verbatim>\<open><\<close> is copied.
\<close>

lemma then_sub_assoc: "then_sub (then_sub x y) z = then_sub x (then_sub y z)"
  by (auto simp add: then_sub_def split: sum.splits prod.splits)

lemma then_sub_empty [simp]: "then_sub (Inr ([], [])) y = y"
  by (auto simp add: then_sub_def split: sum.splits prod.splits)

lemma then_sub_Inr [simp]:
  "then_sub (Inr (a, v)) (Inr (b, w)) = Inr (a @ b, v @ w)"
  by (simp add: then_sub_def)

lemma re_find_shorter: "re_find pattern s = Some (m, rest) \<Longrightarrow> length rest < length s"
  by (auto simp add: re_find_def split: option.splits if_splits)

lemma re_sub_Nil [simp]: "re_sub pattern repl [] = Inr ([], [])"
proof -
  have "re_find pattern [] = None"
    by (auto simp add: re_find_def split: option.splits)
  then show ?thesis by (subst re_sub.simps) simp
qed

lemma re_sub_match:
  "re_find pattern s = Some (m, rest) \<Longrightarrow>
   re_sub pattern repl s = then_sub (repl m) (re_sub pattern repl rest)"
  by (subst re_sub.simps) (auto simp add: then_sub_def split: sum.splits prod.splits)

lemma re_sub_copy:
  "re_find pattern (c # r) = None \<Longrightarrow>
   re_sub pattern repl (c # r) = then_sub (Inr ([c], [])) (re_sub pattern repl r)"
  by (subst re_sub.simps) (auto simp add: then_sub_def split: sum.splits prod.splits)

lemma run_Lit_Cons:
  "re_run (Lit (x # l) # items) pos (y # t) =
     (if y = x then re_run (Lit l # items) (Suc pos) t else None)"
  by simp

lemma cite_not_lt: "x \<noteq> CHR ''<'' \<Longrightarrow> re_run cite_pattern pos (x # s) = None"
  by (simp add: cite_pattern_def)


lemma cite_run_stop:
  assumes "a \<noteq> []"
  shows "re_run cite_pattern pos (a @ CHR ''<'' # b) = re_run cite_pattern pos a"
proof -
  from assms obtain x a' where a: "a = x # a'" by (cases a) auto
  show ?thesis
  proof (cases "x = CHR ''<''")
    case False
    then show ?thesis using a by (simp add: cite_not_lt)
  next
    case True
    have rej: "list_all (item_rejects CHR ''<'') (Lit ''cite'' # tl cite_pattern)"
      by (simp add: cite_pattern_def is_space_def is_digit_def is_quote_def)
    have "re_run cite_pattern pos (x # t) = re_run (Lit ''cite'' # tl cite_pattern) (Suc pos) t" for t
      using True unfolding cite_pattern_def list.sel by (subst run_Lit_Cons) simp
    then show ?thesis using a re_run_stop [OF rej] by simp
  qed
qed

lemma re_find_cite_stop:
  assumes "a \<noteq> []"
  shows "re_find cite_pattern (a @ CHR ''<'' # b) =
         map_option (\<lambda>(m, rest). (m, rest @ CHR ''<'' # b)) (re_find cite_pattern a)"
proof (cases "re_run cite_pattern 0 a")
  case None
  then show ?thesis
    using cite_run_stop [OF assms, of 0 b] by (simp add: re_find_def re_match_def)
next
  case (Some r)
  obtain marks e where r: "r = (marks, e)" by (cases r)
  from re_run_bounds [OF Some [unfolded r]]
  have e: "e \<le> length a" and marks: "\<forall>m \<in> set marks. m \<le> e" by simp_all
  have run: "re_run cite_pattern 0 (a @ CHR ''<'' # b) = Some (marks, e)"
    using cite_run_stop [OF assms, of 0 b] Some r by simp
  show ?thesis
  proof (cases "\<exists>gs ge. marks = [gs, ge]")
    case False
    then have "re_match cite_pattern a = None" "re_match cite_pattern (a @ CHR ''<'' # b) = None"
      using Some r run by (auto simp add: re_match_def split: list.splits)
    then show ?thesis by (simp add: re_find_def)
  next
    case True
    then obtain gs ge where m: "marks = [gs, ge]" by blast
    with marks e have ge: "ge \<le> length a" and gs: "gs \<le> length a" by auto
    have "take (ge - gs) (drop gs a @ CHR ''<'' # b) = take (ge - gs) (drop gs a)"
      using ge gs by simp
    moreover have "length a - e < length a \<longleftrightarrow> length a + length b - e < length a + length b"
      using e by arith
    ultimately show ?thesis
      using Some r run m e gs by (simp add: re_find_def re_match_def)
  qed
qed

lemma cite_split:
  "re_sub cite_pattern f (pre @ CHR ''<'' # t) =
   then_sub (re_sub cite_pattern f pre) (re_sub cite_pattern f (CHR ''<'' # t))"
proof (induction pre rule: length_induct)
  case (1 pre)
  show ?case
  proof (cases pre)
    case Nil
    then show ?thesis by simp
  next
    case (Cons c r)
    then have ne: "pre \<noteq> []" by simp
    show ?thesis
    proof (cases "re_find cite_pattern pre")
      case None
      then have "re_find cite_pattern (pre @ CHR ''<'' # t) = None"
        using re_find_cite_stop [OF ne, of t] by simp
      then have "re_sub cite_pattern f (pre @ CHR ''<'' # t) =
                 then_sub (Inr ([c], [])) (re_sub cite_pattern f (r @ CHR ''<'' # t))"
        using Cons re_sub_copy [of cite_pattern c "r @ CHR ''<'' # t" f] by simp
      also have "\<dots> = then_sub (Inr ([c], []))
                   (then_sub (re_sub cite_pattern f r) (re_sub cite_pattern f (CHR ''<'' # t)))"
        using "1.IH" Cons by simp
      also have "\<dots> = then_sub (re_sub cite_pattern f pre) (re_sub cite_pattern f (CHR ''<'' # t))"
        using None Cons re_sub_copy [of cite_pattern c r f] by (simp add: then_sub_assoc)
      finally show ?thesis .
    next
      case (Some mr)
      obtain m rest where mr: "mr = (m, rest)" by (cases mr)
      have short: "length rest < length pre" using Some mr by (auto dest: re_find_shorter)
      have "re_find cite_pattern (pre @ CHR ''<'' # t) = Some (m, rest @ CHR ''<'' # t)"
        using re_find_cite_stop [OF ne, of t] Some mr by simp
      then have "re_sub cite_pattern f (pre @ CHR ''<'' # t) =
                 then_sub (f m) (re_sub cite_pattern f (rest @ CHR ''<'' # t))"
        by (rule re_sub_match)
      also have "\<dots> = then_sub (f m)
                   (then_sub (re_sub cite_pattern f rest) (re_sub cite_pattern f (CHR ''<'' # t)))"
        using "1.IH" short by simp
      also have "\<dots> = then_sub (re_sub cite_pattern f pre) (re_sub cite_pattern f (CHR ''<'' # t))"
        using re_sub_match [OF Some [unfolded mr], of f] by (simp add: then_sub_assoc)
      finally show ?thesis .
    qed
  qed
qed


subsection \<open>Recognized markers\<close>

text \<open>
  From here on the equations of the matcher are unfolded by name only. A greedy
  quantifier that can take all of a run of its class, with the rest of the pattern
  matching after the run, does so.
\<close>

declare re_run.simps [simp del]

lemma run_Lit_append:
  "re_run (Lit l # items) pos (l @ t) = re_run items (pos + length l) t"
  by (simp add: re_run.simps)

lemma run_Star_greedy:
  assumes "list_all p ws" and "case t of [] \<Rightarrow> True | c # _ \<Rightarrow> \<not> p c"
    and "re_run items (pos + length ws) t = Some r"
  shows "re_run (Star p # items) pos (ws @ t) = Some r"
  using assms
proof (induction ws arbitrary: pos)
  case Nil
  then show ?case by (cases t) (auto simp add: re_run.simps)
next
  case (Cons w ws)
  from Cons.prems have "re_run (Star p # items) (Suc pos) (ws @ t) = Some r"
    by (intro Cons.IH) auto
  with Cons.prems show ?case by (simp add: re_run.simps)
qed

lemma run_Plus_greedy:
  assumes "ws \<noteq> []" and "list_all p ws" and "case t of [] \<Rightarrow> True | c # _ \<Rightarrow> \<not> p c"
    and "re_run items (pos + length ws) t = Some r"
  shows "re_run (Plus p # items) pos (ws @ t) = Some r"
proof -
  from assms(1) obtain w ws' where ws: "ws = w # ws'" by (cases ws) auto
  with assms have "re_run (Star p # items) (Suc pos) (ws' @ t) = Some r"
    by (intro run_Star_greedy) auto
  with ws assms(2) show ?thesis by (simp add: re_run.simps)
qed

lemma run_Opt_take:
  "p c \<Longrightarrow> re_run items (Suc pos) t = Some r \<Longrightarrow> re_run (Opt p # items) pos (c # t) = Some r"
  by (simp add: re_run.simps)

lemma run_Opt_skip:
  "(case t of [] \<Rightarrow> True | c # _ \<Rightarrow> \<not> p c) \<Longrightarrow> re_run (Opt p # items) pos t = re_run items pos t"
  by (cases t) (auto simp add: re_run.simps)

lemma run_Mark:
  "re_run items pos t = Some (marks, e) \<Longrightarrow> re_run (Mark # items) pos t = Some (pos # marks, e)"
  by (simp add: re_run.simps)

lemma run_end: "re_run [] pos t = Some ([], pos)"
  by (simp add: re_run.simps)

lemma run_close_lit:
  "re_run [Lit ''/>''] pos (CHR ''/'' # CHR ''>'' # post) = Some ([], Suc (Suc pos))"
  by (simp add: re_run.simps)

lemma not_space_simps [simp]:
  "\<not> is_space CHR ''s''" "\<not> is_space CHR ''=''" "\<not> is_space CHR ''/''"
  "\<not> is_space CHR 0x22" "\<not> is_space CHR 0x27" "\<not> is_space CHR ''<''"
  by (simp_all add: is_space_def)

lemma quote_not_space: "is_quote c \<Longrightarrow> \<not> is_space c"
  by (auto simp add: is_quote_def is_space_def)

lemma quote_not_digit: "is_quote c \<Longrightarrow> \<not> is_digit c"
  by (auto simp add: is_quote_def is_digit_def)

lemma space_not_digit: "is_space c \<Longrightarrow> \<not> is_digit c"
  by (auto simp add: is_space_def is_digit_def)

lemma space_not_quote: "is_space c \<Longrightarrow> \<not> is_quote c"
  by (auto simp add: is_space_def is_quote_def)

lemma not_quote_simps [simp]: "\<not> is_quote CHR ''s''" "\<not> is_quote CHR ''/''"
  by (simp_all add: is_quote_def)

lemma not_digit_simps [simp]: "\<not> is_digit CHR ''/''" "\<not> is_digit CHR 0x22"
  by (simp_all add: is_digit_def)

text \<open>The closing part of a marker.\<close>

lemma close_quote_run:
  assumes "quote_ok q"
  shows "re_run [Opt is_quote, Star is_space, Lit ''/>''] pos (quote_text q @ ''/>'' @ post) =
         Some ([], pos + length (quote_text q) + 2)"
proof (cases q)
  case None
  have "re_run [Star is_space, Lit ''/>''] pos ([] @ ''/>'' @ post) = Some ([], pos + 2)"
    by (rule run_Star_greedy) (simp_all add: run_close_lit)
  then show ?thesis using None by (simp add: quote_text_def run_Opt_skip)
next
  case (Some cw)
  obtain c ws where cw: "cw = (c, ws)" by (cases cw)
  with assms Some have c: "is_quote c" and ws: "list_all is_space ws"
    by (simp_all add: quote_ok_def)
  have "re_run [Star is_space, Lit ''/>''] (Suc pos) (ws @ ''/>'' @ post) =
        Some ([], Suc pos + length ws + 2)"
    using ws by (intro run_Star_greedy) (simp_all add: run_close_lit)
  then have "re_run [Opt is_quote, Star is_space, Lit ''/>''] pos (c # ws @ ''/>'' @ post) =
        Some ([], Suc pos + length ws + 2)"
    using c by (intro run_Opt_take)
  then show ?thesis using Some cw by (simp add: quote_text_def)
qed

lemma quote_text_start:
  "quote_ok q \<Longrightarrow> (case quote_text q @ CHR ''/'' # t of [] \<Rightarrow> True | c # _ \<Rightarrow> \<not> is_space c)"
  by (cases q) (auto simp add: quote_text_def quote_ok_def quote_not_space)

lemma close_run:
  assumes "list_all is_space ws" and "quote_ok q"
  shows "re_run close_pattern pos (ws @ quote_text q @ ''/>'' @ post) =
         Some ([], pos + length ws + length (quote_text q) + 2)"
  unfolding close_pattern_def
  using assms quote_text_start [OF assms(2), of "''>'' @ post"]
    close_quote_run [OF assms(2), of "pos + length ws" post]
  by (intro run_Star_greedy) simp_all

lemma close_start:
  assumes "list_all is_space ws" and "quote_ok q"
  shows "case ws @ quote_text q @ ''/>'' @ post of [] \<Rightarrow> True | c # _ \<Rightarrow> \<not> is_digit c"
proof (cases ws)
  case Nil
  then show ?thesis using assms(2)
    by (cases q) (auto simp add: quote_text_def quote_ok_def quote_not_digit)
next
  case (Cons w ws')
  then show ?thesis using assms(1) by (simp add: space_not_digit)
qed

text \<open>The part from the whitespace before the short id on.\<close>

lemma value_run:
  assumes "list_all is_space ws4" and "ds \<noteq> []" and "list_all is_digit ds"
    and "list_all is_space ws5" and "quote_ok q"
  shows "re_run value_pattern pos (ws4 @ ''src-'' @ ds @ ws5 @ quote_text q @ ''/>'' @ post) =
         Some ([pos + length ws4, pos + length ws4 + 4 + length ds],
               pos + length ws4 + 4 + length ds + length ws5 + length (quote_text q) + 2)"
proof -
  let ?tail = "ws5 @ quote_text q @ ''/>'' @ post"
  let ?p0 = "pos + length ws4"
  have tail: "re_run (Mark # close_pattern) (?p0 + 4 + length ds) ?tail =
        Some ([?p0 + 4 + length ds], ?p0 + 4 + length ds + length ws5 + length (quote_text q) + 2)"
    using close_run [OF assms(4,5), of "?p0 + 4 + length ds" post] by (intro run_Mark) simp
  have digits: "re_run (Plus is_digit # Mark # close_pattern) (?p0 + 4) (ds @ ?tail) =
        Some ([?p0 + 4 + length ds], ?p0 + 4 + length ds + length ws5 + length (quote_text q) + 2)"
    using assms(2,3) close_start [OF assms(4,5), of post] tail
    by (intro run_Plus_greedy) simp_all
  have lit: "re_run (Lit ''src-'' # Plus is_digit # Mark # close_pattern) ?p0 (''src-'' @ ds @ ?tail) =
        re_run (Plus is_digit # Mark # close_pattern) (?p0 + 4) (ds @ ?tail)"
    by (simp add: re_run.simps numeral_eq_Suc)
  have "re_run (Lit ''src-'' # Plus is_digit # Mark # close_pattern) ?p0 (''src-'' @ ds @ ?tail) =
        Some ([?p0 + 4 + length ds], ?p0 + 4 + length ds + length ws5 + length (quote_text q) + 2)"
    using digits by (simp only: lit)
  then have "re_run (Mark # Lit ''src-'' # Plus is_digit # Mark # close_pattern) ?p0
        (''src-'' @ ds @ ?tail) =
        Some ([?p0, ?p0 + 4 + length ds], ?p0 + 4 + length ds + length ws5 + length (quote_text q) + 2)"
    by (rule run_Mark)
  then have "re_run (Star is_space # Mark # Lit ''src-'' # Plus is_digit # Mark # close_pattern) pos
        (ws4 @ ''src-'' @ ds @ ?tail) =
        Some ([?p0, ?p0 + 4 + length ds], ?p0 + 4 + length ds + length ws5 + length (quote_text q) + 2)"
    using assms(1) by (intro run_Star_greedy) simp_all
  then show ?thesis by (simp add: value_pattern_def close_pattern_def)
qed

lemma cite_pattern_parts:
  "cite_pattern =
     Lit ''<cite'' # Plus is_space # Lit ''source'' # Star is_space # Lit ''='' # Star is_space
     # Opt is_quote # value_pattern"
  by (simp add: cite_pattern_def value_pattern_def)

lemma open_run:
  assumes "quote_ok q1" and "ds \<noteq> []" and "list_all is_digit ds"
    and "list_all is_space ws5" and "quote_ok q2"
  shows "re_run (Opt is_quote # value_pattern) pos
           (quote_text q1 @ ''src-'' @ ds @ ws5 @ quote_text q2 @ ''/>'' @ post) =
         Some ([pos + length (quote_text q1), pos + length (quote_text q1) + 4 + length ds],
               pos + length (quote_text q1) + 4 + length ds + length ws5
                 + length (quote_text q2) + 2)"
proof (cases q1)
  case None
  have "re_run value_pattern pos ([] @ ''src-'' @ ds @ ws5 @ quote_text q2 @ ''/>'' @ post) =
         Some ([pos + length ([]::string), pos + length ([]::string) + 4 + length ds],
               pos + length ([]::string) + 4 + length ds + length ws5 + length (quote_text q2) + 2)"
    using assms by (intro value_run) simp_all
  then show ?thesis using None by (simp add: quote_text_def run_Opt_skip)
next
  case (Some cw)
  obtain c ws4 where cw: "cw = (c, ws4)" by (cases cw)
  with assms Some have c: "is_quote c" and ws4: "list_all is_space ws4"
    by (simp_all add: quote_ok_def)
  have "re_run value_pattern (Suc pos) (ws4 @ ''src-'' @ ds @ ws5 @ quote_text q2 @ ''/>'' @ post) =
         Some ([Suc pos + length ws4, Suc pos + length ws4 + 4 + length ds],
               Suc pos + length ws4 + 4 + length ds + length ws5 + length (quote_text q2) + 2)"
    using assms ws4 by (intro value_run) simp_all
  then have "re_run (Opt is_quote # value_pattern) pos
       (c # ws4 @ ''src-'' @ ds @ ws5 @ quote_text q2 @ ''/>'' @ post) =
         Some ([Suc pos + length ws4, Suc pos + length ws4 + 4 + length ds],
               Suc pos + length ws4 + 4 + length ds + length ws5 + length (quote_text q2) + 2)"
    using c by (intro run_Opt_take)
  then show ?thesis using Some cw by (simp add: quote_text_def)
qed

lemma open_start:
  "quote_ok q \<Longrightarrow> (case quote_text q @ CHR ''s'' # t of [] \<Rightarrow> True | c # _ \<Rightarrow> \<not> is_space c)"
  by (cases q) (auto simp add: quote_text_def quote_ok_def quote_not_space)

lemma tag_run:
  assumes "layout_ok L"
  shows "re_run cite_pattern 0 (cite_tag L @ post) =
         Some ([length (cite_tag L) - length (marker_id L @ ws_after_id L
                   @ quote_text (close_quote L) @ ''/>''),
                length (cite_tag L) - length (ws_after_id L
                   @ quote_text (close_quote L) @ ''/>'')],
               length (cite_tag L))"
proof -
  let ?ws1 = "ws_after_cite L" and ?ws2 = "ws_before_eq L" and ?ws3 = "ws_after_eq L"
  let ?q1 = "open_quote L" and ?ds = "id_digits L" and ?ws5 = "ws_after_id L"
  let ?q2 = "close_quote L"
  from assms have ok: "?ws1 \<noteq> []" "list_all is_space ?ws1" "list_all is_space ?ws2"
    "list_all is_space ?ws3" "quote_ok ?q1" "?ds \<noteq> []" "list_all is_digit ?ds"
    "list_all is_space ?ws5" "quote_ok ?q2"
    by (simp_all add: layout_ok_def)
  let ?v = "quote_text ?q1 @ ''src-'' @ ?ds @ ?ws5 @ quote_text ?q2 @ ''/>'' @ post"
  let ?a = "length (quote_text ?q1)" and ?b = "length (quote_text ?q2)"
  let ?R6 = "Opt is_quote # value_pattern"
  let ?res = "\<lambda>p. Some ([p + ?a, p + ?a + 4 + length ?ds],
                         p + ?a + 4 + length ?ds + length ?ws5 + ?b + 2)"
  have f6: "re_run ?R6 p ?v = ?res p" for p
    using ok by (intro open_run) simp_all
  have f5: "re_run (Star is_space # ?R6) p (?ws3 @ ?v) = ?res (p + length ?ws3)" for p
    using ok open_start [OF ok(5)] f6 by (intro run_Star_greedy) simp_all
  have f4: "re_run (Lit ''='' # Star is_space # ?R6) p (''='' @ ?ws3 @ ?v) =
            ?res (p + 1 + length ?ws3)" for p
    using f5 [of "p + 1"] by (simp add: re_run.simps)
  have f3: "re_run (Star is_space # Lit ''='' # Star is_space # ?R6) p
              (?ws2 @ ''='' @ ?ws3 @ ?v) = ?res (p + length ?ws2 + 1 + length ?ws3)" for p
    using ok f4 by (intro run_Star_greedy) simp_all
  have f2: "re_run (Lit ''source'' # Star is_space # Lit ''='' # Star is_space # ?R6) p
              (''source'' @ ?ws2 @ ''='' @ ?ws3 @ ?v) =
            ?res (p + 6 + length ?ws2 + 1 + length ?ws3)" for p
    using f3 [of "p + 6"] by (simp add: re_run.simps numeral_eq_Suc)
  have f1: "re_run (Plus is_space # Lit ''source'' # Star is_space # Lit ''='' # Star is_space # ?R6)
              p (?ws1 @ ''source'' @ ?ws2 @ ''='' @ ?ws3 @ ?v) =
            ?res (p + length ?ws1 + 6 + length ?ws2 + 1 + length ?ws3)" for p
    using ok f2 by (intro run_Plus_greedy) simp_all
  have f0: "re_run cite_pattern 0 (''<cite'' @ ?ws1 @ ''source'' @ ?ws2 @ ''='' @ ?ws3 @ ?v) =
            ?res (5 + length ?ws1 + 6 + length ?ws2 + 1 + length ?ws3)"
    unfolding cite_pattern_parts using f1 [of 5] by (simp add: re_run.simps numeral_eq_Suc)
  have tag: "cite_tag L @ post = ''<cite'' @ ?ws1 @ ''source'' @ ?ws2 @ ''='' @ ?ws3 @ ?v"
    by (simp add: cite_tag_def marker_id_def)
  show ?thesis
    unfolding tag f0 by (simp add: cite_tag_def marker_id_def)
qed

lemma tag_find:
  assumes "layout_ok L"
  shows "re_find cite_pattern (cite_tag L @ post) =
         Some (\<lparr>group0 = cite_tag L, group1 = marker_id L\<rparr>, post)"
proof -
  let ?Y = "ws_after_id L @ quote_text (close_quote L) @ ''/>''"
  obtain X where tag: "cite_tag L = X @ marker_id L @ ?Y"
    by (simp add: cite_tag_def)
  have gs: "length (cite_tag L) - length (marker_id L @ ?Y) = length X"
    and ge: "length (cite_tag L) - length ?Y = length X + length (marker_id L)"
    by (simp_all add: tag)
  have run: "re_run cite_pattern 0 (cite_tag L @ post) =
        Some ([length X, length X + length (marker_id L)], length (cite_tag L))"
    using tag_run [OF assms, of post] by (simp only: gs ge)
  have "take (length X + length (marker_id L) - length X) (drop (length X) (cite_tag L @ post)) =
        marker_id L"
    by (simp add: tag)
  moreover have "cite_tag L \<noteq> []" by (simp add: cite_tag_def)
  ultimately show ?thesis
    by (simp add: re_find_def re_match_def run)
qed

subsection \<open>Replacing and removing markers\<close>

lemma re_sub_no_warnings:
  assumes "\<And>m. \<exists>t. repl m = Inr (t, [])"
  shows "\<exists>t. re_sub pattern repl s = Inr (t, [])"
proof (induction s rule: length_induct)
  case (1 s)
  show ?case
  proof (cases "re_find pattern s")
    case None
    show ?thesis
    proof (cases s)
      case Nil
      then show ?thesis by simp
    next
      case (Cons c r)
      with "1.IH" obtain t where "re_sub pattern repl r = Inr (t, [])" by auto
      with None Cons show ?thesis by (simp add: re_sub_copy)
    qed
  next
    case (Some mr)
    obtain m rest where mr: "mr = (m, rest)" by (cases mr)
    from Some mr have "length rest < length s" by (auto dest: re_find_shorter)
    with "1.IH" obtain t where t: "re_sub pattern repl rest = Inr (t, [])" by auto
    from assms obtain t0 where "repl m = Inr (t0, [])" by blast
    with t re_sub_match [OF Some [unfolded mr], of repl] show ?thesis by simp
  qed
qed

lemma spacing_sub_total: "spacing_sub s = Inr (fix_spacing s, [])"
proof -
  have "\<exists>t. re_sub spacing_pattern group1_template s = Inr (t, [])"
    by (rule re_sub_no_warnings) (simp add: group1_template_def)
  then show ?thesis by (auto simp add: spacing_sub_def fix_spacing_def)
qed

lemma process_report_eq:
  "process_report srcs final_report =
     (case cite_sub srcs final_report of
        Inl e \<Rightarrow> Inl e
      | Inr (processed_report, warnings) \<Rightarrow> Inr (fix_spacing processed_report, warnings))"
  by (simp add: process_report_def spacing_sub_total split: sum.splits prod.splits)


lemma tag_replacer_unknown:
  assumes "map_of srcs short_id = None"
  shows "tag_replacer srcs \<lparr>group0 = tag, group1 = short_id\<rparr> = Inr ([], [removal_warning tag])"
  using assms by (simp add: tag_replacer_def removal_warning_def)

lemma cite_tag_starts: "\<exists>t. cite_tag L = CHR ''<'' # t"
  by (simp add: cite_tag_def)

lemma marker_sub:
  assumes "layout_ok L"
  shows "cite_sub srcs (pre @ cite_tag L @ post) =
         then_sub (cite_sub srcs pre)
           (then_sub (tag_replacer srcs \<lparr>group0 = cite_tag L, group1 = marker_id L\<rparr>)
              (cite_sub srcs post))"
proof -
  obtain t where t: "cite_tag L = CHR ''<'' # t" using cite_tag_starts by blast
  have "cite_sub srcs (pre @ cite_tag L @ post) =
        then_sub (cite_sub srcs pre) (cite_sub srcs (cite_tag L @ post))"
    unfolding cite_sub_def t using cite_split [of "tag_replacer srcs" pre "t @ post"] by simp
  moreover have "cite_sub srcs (cite_tag L @ post) =
        then_sub (tag_replacer srcs \<lparr>group0 = cite_tag L, group1 = marker_id L\<rparr>)
          (cite_sub srcs post)"
    unfolding cite_sub_def by (rule re_sub_match) (rule tag_find [OF assms])
  ultimately show ?thesis by simp
qed

subsection \<open>Tags that are not markers\<close>












lemma unquote_left: "is_quote c \<Longrightarrow> m \<noteq> [] \<Longrightarrow> unquote (c # m) = rev (drop_quote (rev m))"
  by (simp add: unquote_def)













subsection \<open>Markers found in the registry\<close>




subsection \<open>Markers missing from the registry\<close>

text \<open>
  C7, as amended. A recognized citation marker whose short id is not in the registry
  is replaced by the empty string and one warning that quotes the marker is logged; no
  exception is raised at the marker: the first substitution returns the rewritten text
  before the marker followed by the rewritten text after it, with the warning between
  the warnings of the two parts, and the whole rewrite is the spacing pass over that.
  The property says nothing about which markers stand in the output.
\<close>

theorem unknown_marker_removed:
  assumes "layout_ok L"
    and "map_of srcs (marker_id L) = None"
    and "cite_sub srcs pre = Inr (a, wa)" and "cite_sub srcs post = Inr (b, wb)"
  shows "tag_replacer srcs \<lparr>group0 = cite_tag L, group1 = marker_id L\<rparr> =
           Inr ([], [''Invalid citation tag found and removed: '' @ cite_tag L])
       \<and> cite_sub srcs (pre @ cite_tag L @ post) =
           Inr (a @ b, wa @ [''Invalid citation tag found and removed: '' @ cite_tag L] @ wb)
       \<and> process_report srcs (pre @ cite_tag L @ post) =
           Inr (fix_spacing (a @ b),
                wa @ [''Invalid citation tag found and removed: '' @ cite_tag L] @ wb)"
proof -
  have r: "tag_replacer srcs \<lparr>group0 = cite_tag L, group1 = marker_id L\<rparr> =
           Inr ([], [''Invalid citation tag found and removed: '' @ cite_tag L])"
    using tag_replacer_unknown [OF assms(2)] by (simp add: removal_warning_def)
  have s: "cite_sub srcs (pre @ cite_tag L @ post) =
           Inr (a @ b, wa @ [''Invalid citation tag found and removed: '' @ cite_tag L] @ wb)"
    unfolding marker_sub [OF assms(1)] r assms(3,4) by simp
  have "process_report srcs (pre @ cite_tag L @ post) =
           Inr (fix_spacing (a @ b),
                wa @ [''Invalid citation tag found and removed: '' @ cite_tag L] @ wb)"
    unfolding process_report_eq s by simp
  with r s show ?thesis by simp
qed

text \<open>
  The theorem at the marker \<^verbatim>\<open><cite source="src-99"/>\<close> of the draft
  \<^verbatim>\<open>Fee <cite source="src-99"/> , Bar.\<close>, with the registry that holds \<^verbatim>\<open>src-1\<close>
  only: the marker goes and one warning is logged.
\<close>

theorem unknown_marker_removed_witness:
  "layout_ok (wire_layout ''99'')
   \<and> map_of fee_registry (marker_id (wire_layout ''99'')) = None
   \<and> cite_sub fee_registry ''Fee '' = Inr (''Fee '', [])
   \<and> cite_sub fee_registry '' , Bar.'' = Inr ('' , Bar.'', [])
   \<and> cite_sub fee_registry (''Fee '' @ cite_tag (wire_layout ''99'') @ '' , Bar.'') =
       Inr (''Fee  , Bar.'',
            [''Invalid citation tag found and removed: '' @ cite_tag (wire_layout ''99'')])"
proof -
  have h1: "layout_ok (wire_layout ''99'')"
    by (simp add: layout_ok_def quote_ok_def wire_layout_def is_space_def is_digit_def
        is_quote_def)
  have h2: "map_of fee_registry (marker_id (wire_layout ''99'')) = None"
    by (simp add: fee_registry_def marker_id_def wire_layout_def)
  have h3: "cite_sub fee_registry ''Fee '' = Inr (''Fee '', [])"
    by (simp add: eval_citation)
  have h4: "cite_sub fee_registry '' , Bar.'' = Inr ('' , Bar.'', [])"
    by (simp add: eval_citation)
  from unknown_marker_removed [OF h1 h2 h3 h4]
  show ?thesis
    by (simp add: h1 h2 h3 h4)
qed

text \<open>
  The claim C7 as stated fails in its last part, that no such marker appears in the
  final report. In the draft \<^verbatim>\<open>a<cite source="src-<cite source="src-99"/>99"/>b\<close>
  the only match of the pattern is the inner marker; removing it joins the text
  around it, so the report returned is \<^verbatim>\<open>a<cite source="src-99"/>b\<close>: it holds a
  text that the pattern matches, with the short id \<^verbatim>\<open>src-99\<close> that the registry does
  not hold.
\<close>

theorem nested_marker_survives:
  "map_of fee_registry ''src-99'' = None
   \<and> process_report fee_registry nested_draft =
       Inr (''a'' @ cite_tag (wire_layout ''99'') @ ''b'',
            [''Invalid citation tag found and removed: '' @ cite_tag (wire_layout ''99'')])
   \<and> cite_tag (wire_layout ''99'') = ''<cite source='' @ [CHR 0x22] @ ''src-99'' @ [CHR 0x22] @ ''/>''
   \<and> re_find cite_pattern (cite_tag (wire_layout ''99'') @ ''b'') =
       Some (\<lparr>group0 = cite_tag (wire_layout ''99''), group1 = ''src-99''\<rparr>, ''b'')"
proof -
  have a: "map_of fee_registry ''src-99'' = None"
    by (simp add: fee_registry_def)
  have b: "process_report fee_registry nested_draft =
       Inr (''a'' @ cite_tag (wire_layout ''99'') @ ''b'',
            [''Invalid citation tag found and removed: '' @ cite_tag (wire_layout ''99'')])"
    by (simp add: nested_draft_def fee_registry_def fee_source_def eval_citation)
  have c: "cite_tag (wire_layout ''99'') =
       ''<cite source='' @ [CHR 0x22] @ ''src-99'' @ [CHR 0x22] @ ''/>''"
    by (simp add: eval_citation)
  have d: "re_find cite_pattern (cite_tag (wire_layout ''99'') @ ''b'') =
       Some (\<lparr>group0 = cite_tag (wire_layout ''99''), group1 = ''src-99''\<rparr>, ''b'')"
    by (simp add: eval_citation)
  from a b c d show ?thesis by simp
qed

subsection \<open>Tags the pattern does not recognize\<close>




end
